theory Spec2Isabelle
  imports Complex_Main "HOL-Library.Multiset" "HOL-Library.Product_Lexorder" "HOL-Library.AList"
begin

section \<open>Data model\<close>

text \<open>
  Python floats are modelled as \<^typ>\<open>real\<close>: arithmetic is exact, rounding is outside the
  model. Python integers are \<^typ>\<open>int\<close>; indices and counts that never go negative are
  \<^typ>\<open>nat\<close>. Dictionaries with optional keys are records whose optional fields have an
  option type (\<open>None\<close>: the key is absent).
\<close>

type_synonym point = "real \<times> real"

text \<open>
  A hex cell dictionary: the keys \<open>id\<close>, \<open>center\<close>, \<open>poly\<close> and \<open>area_m2\<close> are written by
  \<open>generate_hex_grid\<close>; \<open>priority\<close> and \<open>restricted\<close> are added by the caller, and the
  assigner reads \<open>priority\<close> with \<open>h.get('priority', 1)\<close>. The polygon is an opaque value
  of the geometry library.
\<close>

record 'g hex_cell =
  cell_id :: int
  center :: point
  poly :: 'g
  area_m2 :: real
  priority :: "int option"
  restricted :: "bool option"

text \<open>
  A vehicle dictionary: \<open>id\<close>, \<open>battery_pct\<close> (read with \<open>u.get('battery_pct', 1.0)\<close>) and
  the optional \<open>capacity_workload\<close>.
\<close>

record uav =
  uav_id :: int
  battery_pct :: "real option"
  capacity_workload :: "real option"

text \<open>One entry of the returned statistics dictionary.\<close>

record uav_stats =
  count_hexes :: nat
  workload :: real
  capacity :: real
  stat_battery_pct :: "real option"

text \<open>
  The exceptions the code can raise. \<open>ZeroWorkloadError\<close> is the
  \<open>ValueError("Total workload is zero or negative ...")\<close> of \<open>assign_hexes_to_uavs\<close>;
  \<open>KMeansError\<close> stands for any exception of the external clustering call;
  \<open>MathDomainError\<close> is the \<open>ValueError\<close> of \<open>math.sqrt\<close> on a negative argument.
\<close>

datatype error =
  ZeroWorkloadError | ZeroDivisionError | IndexError | KeyError | KMeansError | MathDomainError

section \<open>src/assign/capacity\_kmeans.py\<close>

text \<open>\<open>h['area_m2'] * h.get('priority', 1)\<close>\<close>

definition hex_workload :: "'g hex_cell \<Rightarrow> real" where
  "hex_workload h = area_m2 h * real_of_int (case priority h of None \<Rightarrow> 1 | Some p \<Rightarrow> p)"

text \<open>\<open>bucket_workload\<close>, the nested helper.\<close>

definition bucket_workload :: "'g hex_cell list \<Rightarrow> real" where
  "bucket_workload bucket = sum_list (map hex_workload bucket)"

text \<open>\<open>math.hypot\<close>\<close>

definition hypot :: "real \<Rightarrow> real \<Rightarrow> real" where
  "hypot x y = sqrt (x\<^sup>2 + y\<^sup>2)"

text \<open>\<open>math.hypot(h['center'][0] - c[0], h['center'][1] - c[1])\<close>\<close>

definition center_dist :: "'g hex_cell \<Rightarrow> point \<Rightarrow> real" where
  "center_dist h c = hypot (fst (center h) - fst c) (snd (center h) - snd c)"

text \<open>\<open>u.get('battery_pct', 1.0)\<close>\<close>

definition battery_of :: "uav \<Rightarrow> real" where
  "battery_of u = (case battery_pct u of None \<Rightarrow> 1 | Some p \<Rightarrow> p)"

definition battery_sum :: "uav list \<Rightarrow> real" where
  "battery_sum uavs = sum_list (map battery_of uavs)"

text \<open>
  The loop that fills in missing capacities (lines 36 to 39). It mutates the vehicle
  dictionaries in place, so the model returns the list of vehicles as it stands when the
  loop ends or raises, together with the exception if there is one. The division raises
  \<open>ZeroDivisionError\<close> when the battery sum is zero.
\<close>

fun fill_capacities :: "real \<Rightarrow> real \<Rightarrow> uav list \<Rightarrow> uav list \<times> error option" where
  "fill_capacities tw bs [] = ([], None)"
| "fill_capacities tw bs (u # us) =
     (case capacity_workload u of
        Some c \<Rightarrow> (let (us', e) = fill_capacities tw bs us in (u # us', e))
      | None \<Rightarrow>
          if bs = 0 then (u # us, Some ZeroDivisionError)
          else (let (us', e) = fill_capacities tw bs us
                in (u\<lparr>capacity_workload := Some (tw * (battery_of u / bs))\<rparr> # us', e)))"

text \<open>\<open>capacities = [u['capacity_workload'] for u in uavs]\<close>\<close>

fun read_capacities :: "uav list \<Rightarrow> error + real list" where
  "read_capacities [] = Inr []"
| "read_capacities (u # us) =
     (case capacity_workload u of
        None \<Rightarrow> Inl KeyError
      | Some c \<Rightarrow> (case read_capacities us of Inl e \<Rightarrow> Inl e | Inr cs \<Rightarrow> Inr (c # cs)))"

text \<open>
  Building the buckets (lines 49 to 51). The dictionary \<open>buckets\<close> has the keys
  \<open>0..k-1\<close> throughout, so it is a list of length \<open>k\<close>. \<open>buckets[lab]\<close> raises
  \<open>KeyError\<close> for a label outside \<open>range(k)\<close>, and it is evaluated before
  \<open>hex_cells[idx]\<close>, which raises \<open>IndexError\<close> past the end of the cell list.
\<close>

fun build_buckets ::
  "'g hex_cell list \<Rightarrow> nat \<Rightarrow> nat list \<Rightarrow> 'g hex_cell list list \<Rightarrow> error + 'g hex_cell list list"
where
  "build_buckets hex_cells idx [] buckets = Inr buckets"
| "build_buckets hex_cells idx (lab # labels) buckets =
     (if lab \<ge> length buckets then Inl KeyError
      else if idx \<ge> length hex_cells then Inl IndexError
      else build_buckets hex_cells (idx + 1) labels
             (buckets[lab := buckets ! lab @ [hex_cells ! idx]]))"

text \<open>
  The scan over receiving buckets (lines 76 to 85), for candidate cell \<open>h\<close> of bucket \<open>b\<close>:
  \<open>bs\<close> is what is left of \<open>range(k)\<close>, \<open>acc\<close> the list \<open>candidates\<close> so far.
  \<open>capacities[b2]\<close> and \<open>cluster_centers[b2]\<close> raise \<open>IndexError\<close> out of range.
\<close>

fun scan_candidates ::
  "real list \<Rightarrow> point list \<Rightarrow> 'g hex_cell list list \<Rightarrow> nat \<Rightarrow> 'g hex_cell \<Rightarrow> nat list \<Rightarrow>
   (real \<times> nat) list \<Rightarrow> error + (real \<times> nat) list"
where
  "scan_candidates capacities cluster_centers buckets b h [] acc = Inr acc"
| "scan_candidates capacities cluster_centers buckets b h (b2 # bs) acc =
     (if b2 = b then scan_candidates capacities cluster_centers buckets b h bs acc
      else if b2 \<ge> length capacities then Inl IndexError
      else if b2 \<ge> length buckets then Inl KeyError
      else
        (let spare = capacities ! b2 - bucket_workload (buckets ! b2) in
         if spare \<ge> hex_workload h * 0.5 then
           (if b2 \<ge> length cluster_centers then Inl IndexError
            else scan_candidates capacities cluster_centers buckets b h bs
                   (acc @ [(center_dist h (cluster_centers ! b2), b2)]))
         else scan_candidates capacities cluster_centers buckets b h bs acc))"

text \<open>
  The loop over the sorted cells of an over-capacity bucket \<open>b\<close> (lines 74 to 95). The
  result is the buckets and the flag \<open>moved\<close>. \<open>candidates.sort()\<close> sorts the pairs
  \<open>(dist, b2)\<close> lexicographically; \<open>buckets[b].remove(h)\<close> removes the first element equal
  to \<open>h\<close>; \<open>buckets[chosen_b].append(h)\<close> appends at the end.
\<close>

fun try_move ::
  "real list \<Rightarrow> point list \<Rightarrow> nat \<Rightarrow> 'g hex_cell list list \<Rightarrow> nat \<Rightarrow> 'g hex_cell list \<Rightarrow>
   error + ('g hex_cell list list \<times> bool)"
where
  "try_move capacities cluster_centers k buckets b [] = Inr (buckets, False)"
| "try_move capacities cluster_centers k buckets b (h # hs) =
     (case scan_candidates capacities cluster_centers buckets b h [0..<k] [] of
        Inl e \<Rightarrow> Inl e
      | Inr candidates \<Rightarrow>
          if candidates = [] then try_move capacities cluster_centers k buckets b hs
          else
            (let chosen_b = snd (hd (sort candidates));
                 buckets1 = buckets[b := remove1 h (buckets ! b)];
                 buckets2 = buckets1[chosen_b := buckets1 ! chosen_b @ [h]]
             in Inr (buckets2, True)))"

text \<open>
  The body of \<open>for b in range(k)\<close> (lines 64 to 98): the result is the buckets and whether
  a cell was moved. \<open>sorted\<close> is stable and sorts by the key, the negated distance to the
  centroid of \<open>b\<close>.
\<close>

definition bucket_step ::
  "real list \<Rightarrow> point list \<Rightarrow> nat \<Rightarrow> 'g hex_cell list list \<Rightarrow> nat \<Rightarrow>
   error + ('g hex_cell list list \<times> bool)"
where
  "bucket_step capacities cluster_centers k buckets b =
     (if b \<ge> length buckets then Inl KeyError
      else if b \<ge> length capacities then Inl IndexError
      else if bucket_workload (buckets ! b) \<le> capacities ! b then Inr (buckets, False)
      else if b \<ge> length cluster_centers then Inl IndexError
      else
        (let centroid = cluster_centers ! b;
             hexes_sorted = sort_key (\<lambda>h. - center_dist h centroid) (buckets ! b)
         in try_move capacities cluster_centers k buckets b hexes_sorted))"

text \<open>One pass of the \<open>while\<close> loop: the \<open>for\<close> loop over the buckets, with the flag \<open>changed\<close>.\<close>

fun pass_loop ::
  "real list \<Rightarrow> point list \<Rightarrow> nat \<Rightarrow> nat list \<Rightarrow> 'g hex_cell list list \<Rightarrow> bool \<Rightarrow>
   error + ('g hex_cell list list \<times> bool)"
where
  "pass_loop capacities cluster_centers k [] buckets changed = Inr (buckets, changed)"
| "pass_loop capacities cluster_centers k (b # bs) buckets changed =
     (case bucket_step capacities cluster_centers k buckets b of
        Inl e \<Rightarrow> Inl e
      | Inr (buckets', moved) \<Rightarrow>
          pass_loop capacities cluster_centers k bs buckets' (changed \<or> moved))"

definition rebalance_pass ::
  "real list \<Rightarrow> point list \<Rightarrow> nat \<Rightarrow> 'g hex_cell list list \<Rightarrow>
   error + ('g hex_cell list list \<times> bool)"
where
  "rebalance_pass capacities cluster_centers k buckets =
     pass_loop capacities cluster_centers k [0..<k] buckets False"

text \<open>
  The \<open>while changed and iter_count < max_iters\<close> loop (lines 57 to 98). The result is
  the buckets and the number of passes executed.
\<close>

function rebalance_loop ::
  "real list \<Rightarrow> point list \<Rightarrow> nat \<Rightarrow> nat \<Rightarrow> bool \<Rightarrow> nat \<Rightarrow> 'g hex_cell list list \<Rightarrow>
   error + ('g hex_cell list list \<times> nat)"
where
  "rebalance_loop capacities cluster_centers k max_iters changed iter_count buckets =
     (if changed \<and> iter_count < max_iters then
        (case rebalance_pass capacities cluster_centers k buckets of
           Inl e \<Rightarrow> Inl e
         | Inr (buckets', changed') \<Rightarrow>
             rebalance_loop capacities cluster_centers k max_iters changed' (iter_count + 1) buckets')
      else Inr (buckets, iter_count))"
  by pat_completeness auto
termination
  by (relation "measure (\<lambda>(capacities, cluster_centers, k, max_iters, changed, iter_count, buckets).
        max_iters - iter_count)") auto

declare rebalance_loop.simps [simp del]

definition max_iters_of :: "nat \<Rightarrow> nat" where
  "max_iters_of k = max 200 (10 * k)"

definition rebalance ::
  "real list \<Rightarrow> point list \<Rightarrow> nat \<Rightarrow> 'g hex_cell list list \<Rightarrow>
   error + ('g hex_cell list list \<times> nat)"
where
  "rebalance capacities cluster_centers k buckets =
     rebalance_loop capacities cluster_centers k (max_iters_of k) True 0 buckets"

text \<open>
  The output loop (lines 101 to 111). The two dictionaries keyed by \<open>u['id']\<close> are
  association lists in insertion order; assigning to a key that is already there
  overwrites its value. \<open>buckets.get(i, [])\<close> is the empty list for \<open>i\<close> outside
  \<open>range(k)\<close>.
\<close>

definition buckets_get :: "'g hex_cell list list \<Rightarrow> nat \<Rightarrow> 'g hex_cell list" where
  "buckets_get buckets i = (if i < length buckets then buckets ! i else [])"

fun build_output ::
  "'g hex_cell list list \<Rightarrow> nat \<Rightarrow> uav list \<Rightarrow>
   (int \<times> 'g hex_cell list) list \<Rightarrow> (int \<times> uav_stats) list \<Rightarrow>
   error + ((int \<times> 'g hex_cell list) list \<times> (int \<times> uav_stats) list)"
where
  "build_output buckets i [] assignments stats = Inr (assignments, stats)"
| "build_output buckets i (u # us) assignments stats =
     (let assigned = buckets_get buckets i in
      case capacity_workload u of
        None \<Rightarrow> Inl KeyError
      | Some c \<Rightarrow>
          build_output buckets (i + 1) us
            (AList.update (uav_id u) assigned assignments)
            (AList.update (uav_id u)
               \<lparr>count_hexes = length assigned, workload = bucket_workload assigned,
                capacity = c, stat_battery_pct = battery_pct u\<rparr> stats))"

text \<open>
  \<open>assign_hexes_to_uavs\<close>. The external call
  \<open>KMeans(n_clusters=k, random_state=seed, n_init='auto').fit(centers)\<close> is the parameter
  \<open>kmeans_fit\<close>: given \<open>k\<close> and the cell centres it returns \<open>labels_\<close> and
  \<open>cluster_centers_\<close>, or \<open>None\<close> when it raises; the seed is part of it. The first
  component of the result is the vehicle list after the call (the dictionaries are mutated
  in place), the second the exception raised or the pair \<open>(assignments, stats)\<close> returned.
\<close>

definition assign_hexes_to_uavs ::
  "(nat \<Rightarrow> point list \<Rightarrow> (nat list \<times> point list) option) \<Rightarrow>
   'g hex_cell list \<Rightarrow> uav list \<Rightarrow> nat option \<Rightarrow>
   uav list \<times> (error + ((int \<times> 'g hex_cell list) list \<times> (int \<times> uav_stats) list))"
where
  "assign_hexes_to_uavs kmeans_fit hex_cells uavs k_arg =
     (let k = (case k_arg of None \<Rightarrow> length uavs | Some k' \<Rightarrow> k');
          centers = map center hex_cells;
          total_workload = sum_list (map hex_workload hex_cells)
      in
      if total_workload \<le> 0 then (uavs, Inl ZeroWorkloadError)
      else
        (case fill_capacities total_workload (battery_sum uavs) uavs of
           (uavs', Some e) \<Rightarrow> (uavs', Inl e)
         | (uavs', None) \<Rightarrow>
             (uavs',
              case read_capacities uavs' of
                Inl e \<Rightarrow> Inl e
              | Inr capacities \<Rightarrow>
                  (case kmeans_fit k centers of
                     None \<Rightarrow> Inl KMeansError
                   | Some (labels, cluster_centers) \<Rightarrow>
                       (case build_buckets hex_cells 0 labels (replicate k []) of
                          Inl e \<Rightarrow> Inl e
                        | Inr buckets \<Rightarrow>
                            (case rebalance capacities cluster_centers k buckets of
                               Inl e \<Rightarrow> Inl e
                             | Inr (buckets', iters) \<Rightarrow> build_output buckets' 0 uavs' [] []))))))"

section \<open>src/grid/hexgrid.py\<close>

text \<open>
  The geometry library (shapely) is outside the repository. Its operations are the fields
  of a record that the grid functions take as a parameter: \<open>Polygon(vertices)\<close>,
  \<open>.bounds\<close>, \<open>.intersects\<close>, \<open>.intersection\<close> and \<open>.area\<close>, over a type \<open>'g\<close> of
  geometries.
\<close>

record 'g geometry =
  geo_polygon :: "point list \<Rightarrow> 'g"
  geo_bounds :: "'g \<Rightarrow> real \<times> real \<times> real \<times> real"
  geo_intersects :: "'g \<Rightarrow> 'g \<Rightarrow> bool"
  geo_intersection :: "'g \<Rightarrow> 'g \<Rightarrow> 'g"
  geo_area :: "'g \<Rightarrow> real"

definition ACRE_M2 :: real where
  "ACRE_M2 = 4046.8564224"

definition HEX_CONST :: real where
  "HEX_CONST = 3.0 * sqrt 3 / 2.0"

definition hex_area :: "real \<Rightarrow> real" where
  "hex_area side_length_m = HEX_CONST * side_length_m\<^sup>2"

text \<open>\<open>math.sqrt\<close> raises on a negative argument.\<close>

definition compute_hex_side_for_acres :: "real \<Rightarrow> error + real" where
  "compute_hex_side_for_acres cell_acres =
     (let target_area_m2 = cell_acres * ACRE_M2 in
      if target_area_m2 / HEX_CONST < 0 then Inl MathDomainError
      else Inr (sqrt (target_area_m2 / HEX_CONST)))"

definition axial_to_xy :: "int \<Rightarrow> int \<Rightarrow> real \<Rightarrow> point" where
  "axial_to_xy q r s = (s * sqrt 3 * (of_int q + of_int r / 2.0), s * 1.5 * of_int r)"

text \<open>\<open>math.radians\<close>\<close>

definition radians :: "real \<Rightarrow> real" where
  "radians d = d * pi / 180"

text \<open>The vertex list built by \<open>hex_center_to_polygon\<close>, and the polygon made from it.\<close>

definition hexagon_vertices :: "real \<Rightarrow> real \<Rightarrow> real \<Rightarrow> point list" where
  "hexagon_vertices cx cy s =
     map (\<lambda>k. let angle_deg = 30 + 60 * real k;
                   angle_rad = radians angle_deg
               in (cx + s * cos angle_rad, cy + s * sin angle_rad)) [0..<6]"

definition hex_center_to_polygon :: "'g geometry \<Rightarrow> real \<Rightarrow> real \<Rightarrow> real \<Rightarrow> 'g" where
  "hex_center_to_polygon G cx cy s = geo_polygon G (hexagon_vertices cx cy s)"

text \<open>
  Step 7 of \<open>generate_hex_grid\<close>, the loop over the translated hexagons (lines 112 to
  135): \<open>hex_cells\<close> and \<open>hex_id\<close> are the two variables it updates. A translated hexagon
  is the pair of its centre and its polygon. The new cell has no \<open>priority\<close> and no
  \<open>restricted\<close> key.
\<close>

fun clip_loop ::
  "'g geometry \<Rightarrow> 'g \<Rightarrow> bool \<Rightarrow> (point \<times> 'g) list \<Rightarrow> 'g hex_cell list \<Rightarrow> int \<Rightarrow> 'g hex_cell list"
where
  "clip_loop G farm_polygon ignore_slivers [] hex_cells hex_id = hex_cells"
| "clip_loop G farm_polygon ignore_slivers ((c, hex_poly) # hs) hex_cells hex_id =
     (if geo_intersects G hex_poly farm_polygon then
        (let clipped = geo_intersection G hex_poly farm_polygon;
             area = geo_area G clipped;
             cell = \<lparr>cell_id = hex_id, center = c, poly = clipped, area_m2 = area,
                     priority = None, restricted = None\<rparr>
         in if ignore_slivers then
              (if area > 1.0 then
                 clip_loop G farm_polygon ignore_slivers hs (hex_cells @ [cell]) (hex_id + 1)
               else clip_loop G farm_polygon ignore_slivers hs hex_cells hex_id)
            else clip_loop G farm_polygon ignore_slivers hs (hex_cells @ [cell]) (hex_id + 1))
      else clip_loop G farm_polygon ignore_slivers hs hex_cells hex_id)"

text \<open>Step 3, the nested iteration over \<open>r\<close> and \<open>q\<close> (lines 83 to 88).\<close>

definition raw_hexes_of ::
  "'g geometry \<Rightarrow> real \<Rightarrow> int \<Rightarrow> int \<Rightarrow> int \<Rightarrow> int \<Rightarrow> (int \<times> int \<times> point \<times> 'g) list" where
  "raw_hexes_of G s q_min q_max r_min r_max =
     concat (map (\<lambda>r. map (\<lambda>q. let (cx, cy) = axial_to_xy q r s;
                                    poly = hex_center_to_polygon G cx cy s
                                in (q, r, (cx, cy), poly)) [q_min..q_max]) [r_min..r_max])"

text \<open>
  \<open>generate_hex_grid\<close>. The divisions by \<open>s * sqrt3\<close> and \<open>1.5 * s\<close> raise
  \<open>ZeroDivisionError\<close> when the side length is 0; \<open>np.mean\<close> of a non-empty list is
  its sum divided by its length.
\<close>

definition generate_hex_grid ::
  "'g geometry \<Rightarrow> 'g \<Rightarrow> real \<Rightarrow> bool \<Rightarrow> error + 'g hex_cell list" where
  "generate_hex_grid G farm_polygon cell_acres ignore_slivers =
     (case compute_hex_side_for_acres cell_acres of
        Inl e \<Rightarrow> Inl e
      | Inr side_length \<Rightarrow>
          (let s = side_length;
               sqrt3 = sqrt 3.0;
               (minx, miny, maxx, maxy) = geo_bounds G farm_polygon;
               farm_cx = (minx + maxx) / 2.0;
               farm_cy = (miny + maxy) / 2.0
           in if s * sqrt3 = 0 \<or> 1.5 * s = 0 then Inl ZeroDivisionError
              else
                (let q_min = \<lfloor>(minx - 3 * s) / (s * sqrt3)\<rfloor> - 3;
                     q_max = \<lceil>(maxx + 3 * s) / (s * sqrt3)\<rceil> + 3;
                     r_min = \<lfloor>(miny - 3 * s) / (1.5 * s)\<rfloor> - 3;
                     r_max = \<lceil>(maxy + 3 * s) / (1.5 * s)\<rceil> + 3;
                     raw_hexes = raw_hexes_of G s q_min q_max r_min r_max
                 in if raw_hexes = [] then Inr []
                    else
                      (let all_x = map (\<lambda>(q, r, c, p). fst c) raw_hexes;
                           all_y = map (\<lambda>(q, r, c, p). snd c) raw_hexes;
                           mean_x = sum_list all_x / real (length all_x);
                           mean_y = sum_list all_y / real (length all_y);
                           off_x = farm_cx - mean_x;
                           off_y = farm_cy - mean_y;
                           translated_hexes =
                             map (\<lambda>(q, r, (cx, cy), p).
                                    let cx_t = cx + off_x; cy_t = cy + off_y;
                                        poly_t = hex_center_to_polygon G cx_t cy_t s
                                    in ((cx_t, cy_t), poly_t)) raw_hexes
                       in Inr (clip_loop G farm_polygon ignore_slivers translated_hexes [] 0)))))"

text \<open>
  The area of a polygon from its vertex ring, by the surveyor's formula. It is not part of
  the repository: it states what the geometry library's \<open>.area\<close> is taken to compute for a
  polygon built from a vertex list.
\<close>

definition shoelace_area :: "point list \<Rightarrow> real" where
  "shoelace_area vs =
     \<bar>\<Sum>(p, q)\<leftarrow>zip vs (rotate1 vs). fst p * snd q - fst q * snd p\<bar> / 2"

text \<open>
  A stand-in for the geometry library in which the boundary cuts nothing off: every
  hexagon meets it and the clip of a hexagon is the hexagon itself. Geometries are vertex
  rings. The boundary is a rectangle of 1000 by 800 meters.
\<close>

definition ex_geometry :: "point list geometry" where
  "ex_geometry =
     \<lparr>geo_polygon = (\<lambda>vs. vs),
      geo_bounds = (\<lambda>vs. (Min (fst ` set vs), Min (snd ` set vs), Max (fst ` set vs), Max (snd ` set vs))),
      geo_intersects = (\<lambda>p q. True),
      geo_intersection = (\<lambda>p q. p),
      geo_area = shoelace_area\<rparr>"

definition ex_farm :: "point list" where
  "ex_farm = [(0, 0), (1000, 0), (1000, 800), (0, 800)]"

section \<open>A concrete run\<close>

text \<open>
  Three cells on the x axis, each of area 1, and two vehicles with battery fractions 1/4
  and 1/2; the clustering puts the first two cells into bucket 0, whose capacity is 1.
\<close>

definition ex_cell :: "int \<Rightarrow> real \<Rightarrow> real \<Rightarrow> unit hex_cell" where
  "ex_cell i x a = \<lparr>cell_id = i, center = (x, 0), poly = (), area_m2 = a, priority = None, restricted = None\<rparr>"

definition ex_cells :: "unit hex_cell list" where
  "ex_cells = [ex_cell 0 0 1, ex_cell 1 1 1, ex_cell 2 10 1]"

definition ex_uavs :: "uav list" where
  "ex_uavs = [\<lparr>uav_id = 0, battery_pct = Some (1/4), capacity_workload = None\<rparr>,
              \<lparr>uav_id = 1, battery_pct = Some (1/2), capacity_workload = None\<rparr>]"

definition ex_kmeans :: "nat \<Rightarrow> point list \<Rightarrow> (nat list \<times> point list) option" where
  "ex_kmeans k cs = Some ([0, 0, 1], [(1/2, 0), (10, 0)])"

text \<open>
  The same cells with both capacities supplied as 0, which no assignment can respect, and a
  clustering into three clusters for a call with \<open>k = 3\<close>.
\<close>

definition ex_uavs_tight :: "uav list" where
  "ex_uavs_tight = [\<lparr>uav_id = 0, battery_pct = Some (1/4), capacity_workload = Some 0\<rparr>,
                    \<lparr>uav_id = 1, battery_pct = None, capacity_workload = Some 0\<rparr>]"

definition ex_kmeans3 :: "nat \<Rightarrow> point list \<Rightarrow> (nat list \<times> point list) option" where
  "ex_kmeans3 k cs = Some ([0, 1, 2], [(0, 0), (1, 0), (10, 0)])"

text \<open>
  Three vehicles of equal battery fraction, two of which carry the same id: with the three
  unit cells in one cluster each, every bucket is exactly at its capacity.
\<close>

definition dup_uavs :: "uav list" where
  "dup_uavs = [\<lparr>uav_id = 7, battery_pct = Some (1/2), capacity_workload = None\<rparr>,
               \<lparr>uav_id = 8, battery_pct = Some (1/2), capacity_workload = None\<rparr>,
               \<lparr>uav_id = 7, battery_pct = Some (1/2), capacity_workload = None\<rparr>]"

text \<open>
  A state in which one pass moves the cell at 1 to bucket 1 and back: with capacities 3 and
  3 and workloads 2 per cell, both buckets are over capacity in turn.
\<close>

definition ex_osc :: "unit hex_cell list list" where
  "ex_osc = [[ex_cell 0 0 2, ex_cell 1 1 2], [ex_cell 2 10 2]]"

section \<open>The rebalancing step in the words of the specification\<close>







section \<open>Invariants of the rebalancing loop\<close>

lemma mset_concat_update:
  "i < length bs \<Longrightarrow> mset (concat (bs[i := ys])) + mset (bs ! i) = mset (concat bs) + mset ys"
proof (induction bs arbitrary: i)
  case Nil
  then show ?case by simp
next
  case (Cons a bs)
  show ?case
  proof (cases i)
    case 0
    then show ?thesis by simp
  next
    case (Suc j)
    with Cons.prems have "j < length bs" by simp
    from Cons.IH [OF this] Suc show ?thesis by (simp add: ac_simps)
  qed
qed

lemma scan_candidates_eq:
  "scan_candidates capacities cluster_centers buckets b h bs acc = Inr cands \<Longrightarrow>
   cands = acc @ map (\<lambda>b2. (center_dist h (cluster_centers ! b2), b2))
     (filter (\<lambda>b2. b2 \<noteq> b \<and> capacities ! b2 - bucket_workload (buckets ! b2) \<ge> hex_workload h * 0.5) bs)"
proof (induction bs arbitrary: acc)
  case Nil
  then show ?case by simp
next
  case (Cons b2 bs)
  show ?case
    using Cons.prems Cons.IH [of acc] Cons.IH [of "acc @ [(center_dist h (cluster_centers ! b2), b2)]"]
    by (simp add: Let_def split: if_splits)
qed

lemma scan_candidates_bounds:
  "scan_candidates capacities cluster_centers buckets b h bs acc = Inr cands \<Longrightarrow>
   b2 \<in> set bs \<Longrightarrow> b2 \<noteq> b \<Longrightarrow> b2 < length capacities \<and> b2 < length buckets"
proof (induction bs arbitrary: acc)
  case Nil
  then show ?case by simp
next
  case (Cons a bs)
  show ?case
    using Cons.prems Cons.IH [of acc] Cons.IH [of "acc @ [(center_dist h (cluster_centers ! a), a)]"]
    by (auto simp: Let_def split: if_splits)
qed

lemma sort_hd_in_set: "xs \<noteq> [] \<Longrightarrow> hd (sort xs) \<in> set xs"
proof -
  assume "xs \<noteq> []"
  then have "length (sort xs) \<noteq> 0" by simp
  then have "sort xs \<noteq> []" by (simp del: length_sort)
  then have "hd (sort xs) \<in> set (sort xs)" by (rule hd_in_set)
  then show ?thesis by simp
qed

lemma scan_chosen:
  assumes "scan_candidates capacities cluster_centers buckets b h bs [] = Inr cands"
    and "cands \<noteq> []"
  shows "snd (hd (sort cands)) \<in> set bs \<and> snd (hd (sort cands)) \<noteq> b \<and>
         snd (hd (sort cands)) < length buckets \<and> snd (hd (sort cands)) < length capacities"
proof -
  have "hd (sort cands) \<in> set cands" using assms(2) by (rule sort_hd_in_set)
  then have "snd (hd (sort cands)) \<in> snd ` set cands" by (rule imageI)
  with scan_candidates_eq [OF assms(1)]
  have *: "snd (hd (sort cands)) \<in> set bs \<and> snd (hd (sort cands)) \<noteq> b" by (auto simp: image_iff)
  with scan_candidates_bounds [OF assms(1)] show ?thesis by blast
qed

lemma move_cell_mset:
  assumes "b < length buckets" "c < length buckets" "c \<noteq> b" "h \<in> set (buckets ! b)"
  shows "mset (concat ((buckets[b := remove1 h (buckets ! b)])
            [c := (buckets[b := remove1 h (buckets ! b)]) ! c @ [h]])) = mset (concat buckets)"
proof -
  let ?b1 = "buckets[b := remove1 h (buckets ! b)]"
  have 1: "mset (concat ?b1) + mset (buckets ! b) = mset (concat buckets) + mset (remove1 h (buckets ! b))"
    using assms(1) by (rule mset_concat_update)
  have c1: "c < length ?b1" using assms(2) by simp
  have 2: "mset (concat (?b1[c := ?b1 ! c @ [h]])) + mset (?b1 ! c) = mset (concat ?b1) + mset (?b1 ! c @ [h])"
    using c1 by (rule mset_concat_update)
  from 2 have 3: "mset (concat (?b1[c := ?b1 ! c @ [h]])) = add_mset h (mset (concat ?b1))"
    by simp
  from assms(4) have "mset (buckets ! b) = add_mset h (mset (remove1 h (buckets ! b)))"
    by simp
  with 1 have "add_mset h (mset (concat ?b1)) + mset (remove1 h (buckets ! b)) =
      mset (concat buckets) + mset (remove1 h (buckets ! b))"
    by (metis union_mset_add_mset_left union_mset_add_mset_right)
  then have "add_mset h (mset (concat ?b1)) = mset (concat buckets)"
    by (simp only: add_right_cancel)
  with 3 show ?thesis by simp
qed

lemma try_move_inv:
  assumes "try_move capacities cluster_centers k buckets b hs = Inr (buckets', moved)"
    and "b < length buckets" and "set hs \<subseteq> set (buckets ! b)"
  shows "length buckets' = length buckets \<and> mset (concat buckets') = mset (concat buckets)"
  using assms
proof (induction hs)
  case Nil
  then show ?case by simp
next
  case (Cons h hs)
  from Cons.prems(1) obtain cands where
    sc: "scan_candidates capacities cluster_centers buckets b h [0..<k] [] = Inr cands"
    by (auto split: sum.splits)
  show ?case
  proof (cases "cands = []")
    case True
    with Cons sc show ?thesis by simp
  next
    case False
    let ?c = "snd (hd (sort cands))"
    from scan_chosen [OF sc False] have c: "?c \<noteq> b" "?c < length buckets" by auto
    from Cons.prems(3) have h: "h \<in> set (buckets ! b)" by simp
    from Cons.prems(1) sc False
    have eq: "buckets' = (buckets[b := remove1 h (buckets ! b)])
            [?c := (buckets[b := remove1 h (buckets ! b)]) ! ?c @ [h]]"
      by (simp add: Let_def)
    show ?thesis
      unfolding eq using move_cell_mset [OF Cons.prems(2) c(2) c(1) h] by simp
  qed
qed

lemma bucket_step_inv:
  assumes "bucket_step capacities cluster_centers k buckets b = Inr (buckets', moved)"
  shows "length buckets' = length buckets \<and> mset (concat buckets') = mset (concat buckets)"
proof (cases "bucket_workload (buckets ! b) \<le> capacities ! b")
  case True
  with assms show ?thesis by (auto simp: bucket_step_def split: if_splits)
next
  case False
  with assms have b: "b < length buckets"
    and tm: "try_move capacities cluster_centers k buckets b
      (sort_key (\<lambda>h. - center_dist h (cluster_centers ! b)) (buckets ! b)) = Inr (buckets', moved)"
    by (auto simp: bucket_step_def Let_def split: if_splits)
  from try_move_inv [OF tm b] show ?thesis by simp
qed

lemma pass_loop_inv:
  "pass_loop capacities cluster_centers k bs buckets changed = Inr (buckets', changed') \<Longrightarrow>
   length buckets' = length buckets \<and> mset (concat buckets') = mset (concat buckets)"
proof (induction bs arbitrary: buckets changed)
  case Nil
  then show ?case by simp
next
  case (Cons b bs)
  from Cons.prems obtain b1 moved where
    st: "bucket_step capacities cluster_centers k buckets b = Inr (b1, moved)"
    and rest: "pass_loop capacities cluster_centers k bs b1 (changed \<or> moved) = Inr (buckets', changed')"
    by (auto split: sum.splits)
  from bucket_step_inv [OF st] Cons.IH [OF rest] show ?case by simp
qed

lemma rebalance_loop_stop:
  "\<not> (changed \<and> iter_count < max_iters) \<Longrightarrow>
   rebalance_loop capacities cluster_centers k max_iters changed iter_count buckets = Inr (buckets, iter_count)"
  by (subst rebalance_loop.simps) auto

lemma rebalance_loop_step:
  "changed \<Longrightarrow> iter_count < max_iters \<Longrightarrow>
   rebalance_loop capacities cluster_centers k max_iters changed iter_count buckets =
     (case rebalance_pass capacities cluster_centers k buckets of
        Inl e \<Rightarrow> Inl e
      | Inr (buckets', changed') \<Rightarrow>
          rebalance_loop capacities cluster_centers k max_iters changed' (iter_count + 1) buckets')"
  by (subst rebalance_loop.simps) simp

lemma rebalance_loop_inv:
  "rebalance_loop capacities cluster_centers k max_iters changed iter_count buckets = Inr (buckets', n) \<Longrightarrow>
   length buckets' = length buckets \<and> mset (concat buckets') = mset (concat buckets)"
proof (induction capacities cluster_centers k max_iters changed iter_count buckets
    rule: rebalance_loop.induct)
  case (1 capacities cluster_centers k max_iters changed iter_count buckets)
  show ?case
  proof (cases "changed \<and> iter_count < max_iters")
    case False
    with "1.prems" show ?thesis by (simp add: rebalance_loop_stop)
  next
    case True
    with "1.prems" obtain b1 ch1 where
      p: "rebalance_pass capacities cluster_centers k buckets = Inr (b1, ch1)"
      and r: "rebalance_loop capacities cluster_centers k max_iters ch1 (iter_count + 1) b1 = Inr (buckets', n)"
      by (auto simp: rebalance_loop_step split: sum.splits)
    from p have "length b1 = length buckets \<and> mset (concat b1) = mset (concat buckets)"
      unfolding rebalance_pass_def by (rule pass_loop_inv)
    with "1.IH" [OF True p refl r] show ?thesis by simp
  qed
qed

lemma build_buckets_inv:
  "build_buckets hex_cells idx labels buckets = Inr buckets' \<Longrightarrow>
   length buckets' = length buckets \<and> length labels \<le> length hex_cells - idx \<and>
   mset (concat buckets') = mset (concat buckets) + mset (take (length labels) (drop idx hex_cells))"
proof (induction labels arbitrary: idx buckets)
  case Nil
  then show ?case by simp
next
  case (Cons lab labels)
  let ?b1 = "buckets[lab := buckets ! lab @ [hex_cells ! idx]]"
  from Cons.prems have lab: "lab < length buckets" and idx: "idx < length hex_cells"
    and rest: "build_buckets hex_cells (idx + 1) labels ?b1 = Inr buckets'"
    by (auto split: if_splits)
  from mset_concat_update [OF lab, of "buckets ! lab @ [hex_cells ! idx]"]
  have 1: "mset (concat ?b1) = add_mset (hex_cells ! idx) (mset (concat buckets))"
    by simp
  from idx have 2: "take (Suc (length labels)) (drop idx hex_cells) =
      hex_cells ! idx # take (length labels) (drop (Suc idx) hex_cells)"
    by (simp flip: Cons_nth_drop_Suc)
  from Cons.IH [OF rest] 1 2 idx show ?case by (simp, linarith)
qed

lemma build_buckets_all:
  assumes "build_buckets hex_cells 0 labels (replicate k []) = Inr buckets"
    and "length labels = length hex_cells"
  shows "length buckets = k \<and> mset (concat buckets) = mset hex_cells"
  using build_buckets_inv [OF assms(1)] assms(2) by simp

lemma build_buckets_ok:
  "\<forall>l \<in> set labels. l < length buckets \<Longrightarrow> length labels \<le> length hex_cells - idx \<Longrightarrow>
   \<exists>buckets'. build_buckets hex_cells idx labels buckets = Inr buckets'"
proof (induction labels arbitrary: idx buckets)
  case Nil
  then show ?case by simp
next
  case (Cons lab labels)
  then show ?case by simp
qed

lemma alist_update_fresh: "k \<notin> fst ` set al \<Longrightarrow> AList.update k v al = al @ [(k, v)]"
  by (induction al) auto

lemma build_output_distinct:
  assumes "distinct (map uav_id us)"
    and "uav_id ` set us \<inter> fst ` set assignments = {}"
    and "uav_id ` set us \<inter> fst ` set stats = {}"
    and "build_output buckets i us assignments stats = Inr (assignments', stats')"
  shows "assignments' = assignments @ map (\<lambda>(j, u). (uav_id u, buckets_get buckets j)) (zip [i..<i + length us] us)
       \<and> stats' = stats @ map (\<lambda>(j, u). (uav_id u,
            \<lparr>count_hexes = length (buckets_get buckets j),
             workload = bucket_workload (buckets_get buckets j),
             capacity = the (capacity_workload u), stat_battery_pct = battery_pct u\<rparr>))
          (zip [i..<i + length us] us)"
  using assms
proof (induction us arbitrary: i assignments stats)
  case Nil
  then show ?case by simp
next
  case (Cons u us)
  from Cons.prems(4) obtain c where c: "capacity_workload u = Some c"
    by (auto simp: Let_def split: option.splits)
  let ?a1 = "assignments @ [(uav_id u, buckets_get buckets i)]"
  let ?s1 = "stats @ [(uav_id u, \<lparr>count_hexes = length (buckets_get buckets i),
             workload = bucket_workload (buckets_get buckets i),
             capacity = c, stat_battery_pct = battery_pct u\<rparr>)]"
  from Cons.prems(2) have fa: "uav_id u \<notin> fst ` set assignments" by auto
  from Cons.prems(3) have fs: "uav_id u \<notin> fst ` set stats" by auto
  from Cons.prems(4) c have rest: "build_output buckets (i + 1) us ?a1 ?s1 = Inr (assignments', stats')"
    by (simp add: Let_def alist_update_fresh [OF fa] alist_update_fresh [OF fs])
  from Cons.prems(1) have d: "distinct (map uav_id us)" and nu: "uav_id u \<notin> uav_id ` set us" by auto
  from Cons.prems(2) nu have a1: "uav_id ` set us \<inter> fst ` set ?a1 = {}" by auto
  from Cons.prems(3) nu have s1: "uav_id ` set us \<inter> fst ` set ?s1 = {}" by auto
  have "[i..<i + length (u # us)] = i # [Suc i..<i + length (u # us)]"
    by (rule upt_conv_Cons) simp
  then have up: "[i..<i + length (u # us)] = i # [i + 1..<i + 1 + length us]"
    by simp
  from Cons.IH [OF d a1 s1 rest] c show ?case
    unfolding up by simp
qed



lemma fill_capacities_frame:
  "fill_capacities tw bs us = (us', e) \<Longrightarrow>
   length us' = length us \<and> map uav_id us' = map uav_id us \<and> map battery_pct us' = map battery_pct us"
proof (induction us arbitrary: us' e)
  case Nil
  then show ?case by simp
next
  case (Cons u us)
  then show ?case
    by (cases "fill_capacities tw bs us") (auto split: option.splits if_splits)
qed

lemma fill_capacities_nth:
  "fill_capacities tw bs us = (us', None) \<Longrightarrow> i < length us \<Longrightarrow>
   capacity_workload (us' ! i) =
     Some (case capacity_workload (us ! i) of Some c \<Rightarrow> c | None \<Rightarrow> tw * (battery_of (us ! i) / bs))"
proof (induction us arbitrary: us' i)
  case Nil
  then show ?case by simp
next
  case (Cons u us)
  then show ?case
    by (cases "fill_capacities tw bs us"; cases i) (auto split: option.splits if_splits)
qed


lemma fill_capacities_ok:
  "bs \<noteq> 0 \<or> (\<forall>u \<in> set us. capacity_workload u \<noteq> None) \<Longrightarrow>
   \<exists>us'. fill_capacities tw bs us = (us', None)"
proof (induction us)
  case Nil
  then show ?case by simp
next
  case (Cons u us)
  then show ?case by (auto split: option.splits)
qed

lemma fill_capacities_some:
  assumes "fill_capacities tw bs us = (us', None)"
  shows "\<forall>u \<in> set us'. capacity_workload u \<noteq> None"
proof -
  have "length us' = length us" using fill_capacities_frame [OF assms] by simp
  then show ?thesis
    using fill_capacities_nth [OF assms] by (auto simp: in_set_conv_nth)
qed

lemma read_capacities_ok:
  "\<forall>u \<in> set us. capacity_workload u \<noteq> None \<Longrightarrow>
   read_capacities us = Inr (map (\<lambda>u. the (capacity_workload u)) us)"
  by (induction us) auto

lemma read_capacities_eq:
  "read_capacities us = Inr cs \<Longrightarrow> cs = map (\<lambda>u. the (capacity_workload u)) us"
  by (induction us arbitrary: cs) (auto split: option.splits sum.splits)


lemma assign_success:
  assumes "assign_hexes_to_uavs kmeans_fit hex_cells uavs k_arg = (uavs', Inr (assignments, stats))"
  shows "\<exists>capacities labels cluster_centers buckets buckets' iters.
    0 < sum_list (map hex_workload hex_cells) \<and>
    fill_capacities (sum_list (map hex_workload hex_cells)) (battery_sum uavs) uavs = (uavs', None) \<and>
    read_capacities uavs' = Inr capacities \<and>
    kmeans_fit (case k_arg of None \<Rightarrow> length uavs | Some k' \<Rightarrow> k') (map center hex_cells)
      = Some (labels, cluster_centers) \<and>
    build_buckets hex_cells 0 labels
      (replicate (case k_arg of None \<Rightarrow> length uavs | Some k' \<Rightarrow> k') []) = Inr buckets \<and>
    rebalance capacities cluster_centers (case k_arg of None \<Rightarrow> length uavs | Some k' \<Rightarrow> k') buckets
      = Inr (buckets', iters) \<and>
    build_output buckets' 0 uavs' [] [] = Inr (assignments, stats)"
  using assms unfolding assign_hexes_to_uavs_def Let_def
  by (auto split: if_splits prod.splits option.splits sum.splits)

lemma concat_buckets_get:
  assumes "length buckets \<le> n"
  shows "concat (map (buckets_get buckets) [0..<n]) = concat buckets"
proof -
  have "[0..<n] = [0..<length buckets] @ [length buckets..<n]"
    using assms by (metis le_add_diff_inverse upt_add_eq_append zero_le)
  moreover have "map (buckets_get buckets) [0..<length buckets] = buckets"
    by (rule nth_equalityI) (simp_all add: buckets_get_def)
  moreover have "concat (map (buckets_get buckets) [length buckets..<n]) = []"
    by (simp add: buckets_get_def)
  ultimately show ?thesis by simp
qed

lemma distinct_concat_unique:
  "distinct (concat xss) \<Longrightarrow> i < length xss \<Longrightarrow> j < length xss \<Longrightarrow>
   c \<in> set (xss ! i) \<Longrightarrow> c \<in> set (xss ! j) \<Longrightarrow> i = j"
proof (induction xss arbitrary: i j)
  case Nil
  then show ?case by simp
next
  case (Cons xs xss)
  show ?case
  proof (cases i; cases j)
    fix i' j' assume "i = Suc i'" "j = Suc j'"
    with Cons.prems Cons.IH [of i' j'] show ?thesis by simp
  next
    fix j' assume "i = 0" "j = Suc j'"
    with Cons.prems have "c \<in> set xs" "c \<in> set (concat xss)" by auto
    with Cons.prems(1) show ?thesis by auto
  next
    fix i' assume "i = Suc i'" "j = 0"
    with Cons.prems have "c \<in> set xs" "c \<in> set (concat xss)" by auto
    with Cons.prems(1) show ?thesis by auto
  qed simp
qed

lemma sum_list_bucket_workload:
  "sum_list (map bucket_workload xss) = sum_list (map hex_workload (concat xss))"
  by (induction xss) (simp_all add: bucket_workload_def)

lemma sum_list_hex_workload_mset:
  "mset xs = mset ys \<Longrightarrow> sum_list (map hex_workload xs) = sum_list (map hex_workload ys)"
  by (metis mset_map sum_mset_sum_list)

lemma assign_partition:
  fixes k :: nat
  assumes res: "assign_hexes_to_uavs kmeans_fit hex_cells uavs k_arg = (uavs', Inr (assignments, stats))"
    and k: "k = (case k_arg of None \<Rightarrow> length uavs | Some k' \<Rightarrow> k')"
    and kle: "k \<le> length uavs"
    and dist: "distinct (map uav_id uavs)"
    and km: "\<forall>labels cc. kmeans_fit k (map center hex_cells) = Some (labels, cc) \<longrightarrow>
               length labels = length hex_cells"
  shows "map fst assignments = map uav_id uavs \<and> map fst stats = map uav_id uavs \<and>
         mset (concat (map snd assignments)) = mset hex_cells \<and>
         map (\<lambda>s. count_hexes (snd s)) stats = map (\<lambda>a. length (snd a)) assignments \<and>
         map (\<lambda>s. workload (snd s)) stats = map (\<lambda>a. bucket_workload (snd a)) assignments"
proof -
  from assign_success [OF res] obtain capacities labels cluster_centers buckets buckets' iters where
    fill: "fill_capacities (sum_list (map hex_workload hex_cells)) (battery_sum uavs) uavs = (uavs', None)"
    and kf: "kmeans_fit k (map center hex_cells) = Some (labels, cluster_centers)"
    and bb: "build_buckets hex_cells 0 labels (replicate k []) = Inr buckets"
    and rb: "rebalance capacities cluster_centers k buckets = Inr (buckets', iters)"
    and out: "build_output buckets' 0 uavs' [] [] = Inr (assignments, stats)"
    unfolding k by blast
  from km kf have ll: "length labels = length hex_cells" by blast
  from build_buckets_all [OF bb ll] have b0: "length buckets = k" "mset (concat buckets) = mset hex_cells"
    by simp_all
  from rb have "length buckets' = length buckets \<and> mset (concat buckets') = mset (concat buckets)"
    unfolding rebalance_def by (rule rebalance_loop_inv)
  with b0 have b1: "length buckets' = k" "mset (concat buckets') = mset hex_cells" by simp_all
  from fill_capacities_frame [OF fill] have fr: "length uavs' = length uavs"
    "map uav_id uavs' = map uav_id uavs" by simp_all
  from dist fr have d': "distinct (map uav_id uavs')" by simp
  from build_output_distinct [OF d' _ _ out]
  have asg: "assignments = map (\<lambda>(j, u). (uav_id u, buckets_get buckets' j)) (zip [0..<length uavs'] uavs')"
    and st: "stats = map (\<lambda>(j, u). (uav_id u,
            \<lparr>count_hexes = length (buckets_get buckets' j),
             workload = bucket_workload (buckets_get buckets' j),
             capacity = the (capacity_workload u), stat_battery_pct = battery_pct u\<rparr>))
          (zip [0..<length uavs'] uavs')"
    by simp_all
  have fst_asg: "map fst assignments = map uav_id uavs'"
    unfolding asg by (rule nth_equalityI) simp_all
  have fst_st: "map fst stats = map uav_id uavs'"
    unfolding st by (rule nth_equalityI) simp_all
  have snd_asg: "map snd assignments = map (buckets_get buckets') [0..<length uavs']"
    unfolding asg by (rule nth_equalityI) simp_all
  have cnt: "map (\<lambda>s. count_hexes (snd s)) stats = map (\<lambda>a. length (snd a)) assignments"
    unfolding asg st by (rule nth_equalityI) simp_all
  have wl: "map (\<lambda>s. workload (snd s)) stats = map (\<lambda>a. bucket_workload (snd a)) assignments"
    unfolding asg st by (rule nth_equalityI) simp_all
  from kle b1(1) fr(1) have "length buckets' \<le> length uavs'" by simp
  then have "concat (map snd assignments) = concat buckets'"
    unfolding snd_asg by (rule concat_buckets_get)
  with b1(2) have "mset (concat (map snd assignments)) = mset hex_cells" by simp
  with fst_asg fst_st fr(2) cnt wl show ?thesis by simp
qed

section \<open>Evaluating the concrete run\<close>

lemma hypot_zero: "hypot x 0 = \<bar>x\<bar>"
  by (simp add: hypot_def)

lemma ex_dist [simp]: "center_dist (ex_cell i x a) (cx, 0) = \<bar>x - cx\<bar>"
  by (simp add: center_dist_def ex_cell_def hypot_zero)

lemma ex_wl [simp]: "hex_workload (ex_cell i x a) = a"
  by (simp add: hex_workload_def ex_cell_def)

lemma ex_cell_eq [simp]: "ex_cell i x a = ex_cell j y b \<longleftrightarrow> i = j \<and> x = y \<and> a = b"
  by (auto simp: ex_cell_def)

lemma ex_center [simp]: "center (ex_cell i x a) = (x, 0)"
  by (simp add: ex_cell_def)

lemma ex_rebalance:
  "rebalance [1, 2] [(1/2, 0), (10, 0)] 2 [[ex_cell 0 0 1, ex_cell 1 1 1], [ex_cell 2 10 1]]
   = Inr ([[ex_cell 1 1 1], [ex_cell 2 10 1, ex_cell 0 0 1]], 2)"
  by (simp add: rebalance_def max_iters_of_def rebalance_loop.simps rebalance_pass_def
      bucket_step_def bucket_workload_def Let_def numeral_2_eq_2)

lemma ex_assign:
  "assign_hexes_to_uavs ex_kmeans ex_cells ex_uavs None =
    ([\<lparr>uav_id = 0, battery_pct = Some (1/4), capacity_workload = Some 1\<rparr>,
      \<lparr>uav_id = 1, battery_pct = Some (1/2), capacity_workload = Some 2\<rparr>],
     Inr ([(0, [ex_cell 1 1 1]), (1, [ex_cell 2 10 1, ex_cell 0 0 1])],
          [(0, \<lparr>count_hexes = 1, workload = 1, capacity = 1, stat_battery_pct = Some (1/4)\<rparr>),
           (1, \<lparr>count_hexes = 2, workload = 2, capacity = 2, stat_battery_pct = Some (1/2)\<rparr>)]))"
  using ex_rebalance
  by (simp add: assign_hexes_to_uavs_def ex_kmeans_def ex_cells_def ex_uavs_def Let_def
      battery_sum_def battery_of_def buckets_get_def bucket_workload_def numeral_2_eq_2)

section \<open>Which calls raise, and which return\<close>

lemma scan_candidates_error:
  "scan_candidates capacities cluster_centers buckets b h bs acc = Inl e \<Longrightarrow>
   e = IndexError \<or> (e = KeyError \<and> (\<exists>b2 \<in> set bs. length buckets \<le> b2))"
proof (induction bs arbitrary: acc)
  case Nil
  then show ?case by simp
next
  case (Cons b2 bs)
  show ?case
    using Cons.prems Cons.IH [of acc] Cons.IH [of "acc @ [(center_dist h (cluster_centers ! b2), b2)]"]
    by (auto simp: Let_def split: if_splits)
qed

lemma try_move_error:
  "try_move capacities cluster_centers k buckets b hs = Inl e \<Longrightarrow>
   e = IndexError \<or> (e = KeyError \<and> length buckets < k)"
proof (induction hs)
  case Nil
  then show ?case by simp
next
  case (Cons h hs)
  show ?case
  proof (cases "scan_candidates capacities cluster_centers buckets b h [0..<k] []")
    case (Inl e')
    with Cons.prems have "e' = e" by simp
    with Inl show ?thesis by (auto dest: scan_candidates_error)
  next
    case (Inr cands)
    with Cons show ?thesis by (auto simp: Let_def split: if_splits)
  qed
qed

lemma bucket_step_error:
  "bucket_step capacities cluster_centers k buckets b = Inl e \<Longrightarrow>
   e = IndexError \<or> (e = KeyError \<and> (length buckets < k \<or> length buckets \<le> b))"
  by (auto simp: bucket_step_def Let_def split: if_splits dest: try_move_error)

lemma pass_loop_error:
  "pass_loop capacities cluster_centers k bs buckets changed = Inl e \<Longrightarrow> \<forall>b \<in> set bs. b < k \<Longrightarrow>
   e = IndexError \<or> (e = KeyError \<and> length buckets < k)"
proof (induction bs arbitrary: buckets changed)
  case Nil
  then show ?case by simp
next
  case (Cons b bs)
  show ?case
  proof (cases "bucket_step capacities cluster_centers k buckets b")
    case (Inl e')
    with Cons.prems have "e' = e" by simp
    with Inl Cons.prems(2) show ?thesis by (auto dest: bucket_step_error)
  next
    case (Inr r)
    obtain b1 moved where r: "r = (b1, moved)" by (cases r)
    from bucket_step_inv [OF Inr [unfolded r]] have len: "length b1 = length buckets" by simp
    from Cons.prems Inr r
    have "pass_loop capacities cluster_centers k bs b1 (changed \<or> moved) = Inl e"
      and "\<forall>b \<in> set bs. b < k" by simp_all
    from Cons.IH [OF this] len show ?thesis by simp
  qed
qed

lemma rebalance_loop_error:
  "rebalance_loop capacities cluster_centers k max_iters changed iter_count buckets = Inl e \<Longrightarrow>
   e = IndexError \<or> (e = KeyError \<and> length buckets < k)"
proof (induction capacities cluster_centers k max_iters changed iter_count buckets
    rule: rebalance_loop.induct)
  case (1 capacities cluster_centers k max_iters changed iter_count buckets)
  show ?case
  proof (cases "changed \<and> iter_count < max_iters")
    case False
    with "1.prems" show ?thesis by (simp add: rebalance_loop_stop)
  next
    case True
    show ?thesis
    proof (cases "rebalance_pass capacities cluster_centers k buckets")
      case (Inl e')
      with True "1.prems" have "e' = e" by (simp add: rebalance_loop_step)
      with Inl show ?thesis unfolding rebalance_pass_def by (auto dest: pass_loop_error)
    next
      case (Inr r)
      obtain b1 ch1 where r: "r = (b1, ch1)" by (cases r)
      from Inr r have "length b1 = length buckets"
        unfolding rebalance_pass_def by (simp add: pass_loop_inv)
      moreover from True "1.prems" Inr r
      have "rebalance_loop capacities cluster_centers k max_iters ch1 (iter_count + 1) b1 = Inl e"
        by (simp add: rebalance_loop_step)
      ultimately show ?thesis using "1.IH" [OF True _ refl, of b1 ch1] Inr r by simp
    qed
  qed
qed


lemma scan_candidates_ok:
  "\<forall>b2 \<in> set bs. b2 < length capacities \<and> b2 < length buckets \<and> b2 < length cluster_centers \<Longrightarrow>
   \<exists>cands. scan_candidates capacities cluster_centers buckets b h bs acc = Inr cands"
  by (induction bs arbitrary: acc) (auto simp: Let_def)

lemma try_move_ok:
  assumes "k \<le> length capacities" "k \<le> length buckets" "k \<le> length cluster_centers"
  shows "\<exists>r. try_move capacities cluster_centers k buckets b hs = Inr r"
proof (induction hs)
  case Nil
  then show ?case by auto
next
  case (Cons h hs)
  from assms have "\<forall>b2 \<in> set [0..<k]. b2 < length capacities \<and> b2 < length buckets \<and> b2 < length cluster_centers"
    by auto
  from scan_candidates_ok [OF this] obtain cands where
    "scan_candidates capacities cluster_centers buckets b h [0..<k] [] = Inr cands" by blast
  with Cons show ?case by (auto simp: Let_def)
qed

lemma bucket_step_ok:
  assumes "k \<le> length capacities" "k \<le> length buckets" "k \<le> length cluster_centers" "b < k"
  shows "\<exists>r. bucket_step capacities cluster_centers k buckets b = Inr r"
  using assms try_move_ok [OF assms(1-3)] by (auto simp: bucket_step_def Let_def)

lemma pass_loop_ok:
  assumes "k \<le> length capacities" "k \<le> length cluster_centers"
  shows "k \<le> length buckets \<Longrightarrow> \<forall>b \<in> set bs. b < k \<Longrightarrow>
         \<exists>r. pass_loop capacities cluster_centers k bs buckets changed = Inr r"
proof (induction bs arbitrary: buckets changed)
  case Nil
  then show ?case by simp
next
  case (Cons b bs)
  from Cons.prems have "b < k" by simp
  from bucket_step_ok [OF assms(1) Cons.prems(1) assms(2) this]
  obtain b1 moved where st: "bucket_step capacities cluster_centers k buckets b = Inr (b1, moved)"
    by force
  from bucket_step_inv [OF st] Cons.prems(1) have "k \<le> length b1" by simp
  from Cons.IH [OF this, of "changed \<or> moved"] Cons.prems(2) st show ?case by simp
qed

lemma rebalance_loop_ok:
  "k \<le> length capacities \<Longrightarrow> k \<le> length cluster_centers \<Longrightarrow> k \<le> length buckets \<Longrightarrow>
   \<exists>r. rebalance_loop capacities cluster_centers k max_iters changed iter_count buckets = Inr r"
proof (induction capacities cluster_centers k max_iters changed iter_count buckets
    rule: rebalance_loop.induct)
  case (1 capacities cluster_centers k max_iters changed iter_count buckets)
  show ?case
  proof (cases "changed \<and> iter_count < max_iters")
    case False
    then show ?thesis by (simp add: rebalance_loop_stop)
  next
    case True
    have "\<forall>b \<in> set [0..<k]. b < k" by simp
    from pass_loop_ok [OF "1.prems"(1,2,3) this]
    obtain b1 ch1 where p: "rebalance_pass capacities cluster_centers k buckets = Inr (b1, ch1)"
      unfolding rebalance_pass_def by force
    from p have "length b1 = length buckets" unfolding rebalance_pass_def by (simp add: pass_loop_inv)
    with "1.prems" have "k \<le> length b1" by simp
    from "1.IH" [OF True p refl "1.prems"(1,2) this] p True show ?thesis
      by (simp add: rebalance_loop_step)
  qed
qed

lemma read_capacities_length: "read_capacities us = Inr cs \<Longrightarrow> length cs = length us"
  by (drule read_capacities_eq) simp




lemma assign_stats_report:
  assumes res: "assign_hexes_to_uavs kmeans_fit hex_cells uavs k_arg = (uavs', Inr (assignments, stats))"
    and dist: "distinct (map uav_id uavs)"
  shows "map fst stats = map uav_id uavs \<and>
         map (\<lambda>s. capacity (snd s)) stats = map (\<lambda>u. the (capacity_workload u)) uavs' \<and>
         map (\<lambda>s. stat_battery_pct (snd s)) stats = map battery_pct uavs \<and>
         map (\<lambda>s. workload (snd s)) stats = map (\<lambda>a. bucket_workload (snd a)) assignments \<and>
         map (\<lambda>s. count_hexes (snd s)) stats = map (\<lambda>a. length (snd a)) assignments"
proof -
  from assign_success [OF res] obtain buckets' where
    fill: "fill_capacities (sum_list (map hex_workload hex_cells)) (battery_sum uavs) uavs = (uavs', None)"
    and out: "build_output buckets' 0 uavs' [] [] = Inr (assignments, stats)"
    by blast
  from fill_capacities_frame [OF fill] have fr: "length uavs' = length uavs"
    "map uav_id uavs' = map uav_id uavs" "map battery_pct uavs' = map battery_pct uavs" by simp_all
  from dist fr have d': "distinct (map uav_id uavs')" by simp
  from build_output_distinct [OF d' _ _ out]
  have asg: "assignments = map (\<lambda>(j, u). (uav_id u, buckets_get buckets' j)) (zip [0..<length uavs'] uavs')"
    and st: "stats = map (\<lambda>(j, u). (uav_id u,
            \<lparr>count_hexes = length (buckets_get buckets' j),
             workload = bucket_workload (buckets_get buckets' j),
             capacity = the (capacity_workload u), stat_battery_pct = battery_pct u\<rparr>))
          (zip [0..<length uavs'] uavs')"
    by simp_all
  have 1: "map fst stats = map uav_id uavs'"
    unfolding st by (rule nth_equalityI) simp_all
  have 2: "map (\<lambda>s. capacity (snd s)) stats = map (\<lambda>u. the (capacity_workload u)) uavs'"
    unfolding st by (rule nth_equalityI) simp_all
  have 3: "map (\<lambda>s. stat_battery_pct (snd s)) stats = map battery_pct uavs'"
    unfolding st by (rule nth_equalityI) simp_all
  have 4: "map (\<lambda>s. workload (snd s)) stats = map (\<lambda>a. bucket_workload (snd a)) assignments"
    unfolding asg st by (rule nth_equalityI) simp_all
  have 5: "map (\<lambda>s. count_hexes (snd s)) stats = map (\<lambda>a. length (snd a)) assignments"
    unfolding asg st by (rule nth_equalityI) simp_all
  from 1 2 3 4 5 fr show ?thesis by simp
qed

lemma ex_total: "sum_list (map hex_workload ex_cells) = 3"
  by (simp add: ex_cells_def)

lemma ex_rebalance_tight:
  "rebalance [0, 0] [(1/2, 0), (10, 0)] 2 [[ex_cell 0 0 1, ex_cell 1 1 1], [ex_cell 2 10 1]]
   = Inr ([[ex_cell 0 0 1, ex_cell 1 1 1], [ex_cell 2 10 1]], 1)"
  by (simp add: rebalance_def max_iters_of_def rebalance_loop.simps rebalance_pass_def
      bucket_step_def bucket_workload_def Let_def numeral_2_eq_2)

lemma ex_assign_tight:
  "assign_hexes_to_uavs ex_kmeans ex_cells ex_uavs_tight None =
    (ex_uavs_tight,
     Inr ([(0, [ex_cell 0 0 1, ex_cell 1 1 1]), (1, [ex_cell 2 10 1])],
          [(0, \<lparr>count_hexes = 2, workload = 2, capacity = 0, stat_battery_pct = Some (1/4)\<rparr>),
           (1, \<lparr>count_hexes = 1, workload = 1, capacity = 0, stat_battery_pct = None\<rparr>)]))"
  using ex_rebalance_tight
  by (simp add: assign_hexes_to_uavs_def ex_kmeans_def ex_cells_def ex_uavs_tight_def Let_def
      battery_sum_def battery_of_def buckets_get_def bucket_workload_def numeral_2_eq_2)

lemma ex_assign_k3:
  "assign_hexes_to_uavs ex_kmeans3 ex_cells ex_uavs (Some 3) =
    ([\<lparr>uav_id = 0, battery_pct = Some (1/4), capacity_workload = Some 1\<rparr>,
      \<lparr>uav_id = 1, battery_pct = Some (1/2), capacity_workload = Some 2\<rparr>], Inl IndexError)"
  by (simp add: assign_hexes_to_uavs_def ex_kmeans3_def ex_cells_def ex_uavs_def Let_def
      battery_sum_def battery_of_def rebalance_def max_iters_of_def rebalance_loop.simps
      rebalance_pass_def bucket_step_def bucket_workload_def numeral_3_eq_3)

section \<open>The vehicle list after the call\<close>

lemma fill_capacities_fst_zero: "fst (fill_capacities tw 0 us) = us"
  by (induction us) (auto split: option.splits prod.splits)

lemma fill_capacities_fst_nth:
  "bs \<noteq> 0 \<Longrightarrow> i < length us \<Longrightarrow>
   fst (fill_capacities tw bs us) ! i =
     (case capacity_workload (us ! i) of
        Some c \<Rightarrow> us ! i
      | None \<Rightarrow> (us ! i)\<lparr>capacity_workload := Some (tw * (battery_of (us ! i) / bs))\<rparr>)"
proof (induction us arbitrary: i)
  case Nil
  then show ?case by simp
next
  case (Cons u us)
  then show ?case
    by (cases i) (auto split: option.splits prod.splits)
qed

lemma fill_capacities_supplied:
  "i < length us \<Longrightarrow> capacity_workload (us ! i) \<noteq> None \<Longrightarrow>
   fst (fill_capacities tw bs us) ! i = us ! i"
proof (cases "bs = 0")
  case True
  then show ?thesis by (simp add: fill_capacities_fst_zero)
next
  case False
  assume "i < length us" "capacity_workload (us ! i) \<noteq> None"
  with fill_capacities_fst_nth [OF False, of i us tw] show ?thesis by auto
qed

lemma assign_fst:
  "fst (assign_hexes_to_uavs kmeans_fit hex_cells uavs k_arg) =
     (if sum_list (map hex_workload hex_cells) \<le> 0 then uavs
      else fst (fill_capacities (sum_list (map hex_workload hex_cells)) (battery_sum uavs) uavs))"
  by (simp add: assign_hexes_to_uavs_def Let_def split: prod.splits option.splits)

lemma alist_update_set: "set (AList.update k v al) \<subseteq> insert (k, v) (set al)"
  by (induction al) auto

lemma build_output_values:
  "build_output buckets i us assignments stats = Inr (assignments', stats') \<Longrightarrow>
   a \<in> set assignments' \<Longrightarrow> a \<in> set assignments \<or> (\<exists>j. snd a = buckets_get buckets j)"
proof (induction us arbitrary: i assignments stats)
  case Nil
  then show ?case by simp
next
  case (Cons u us)
  from Cons.prems(1) obtain c where c: "capacity_workload u = Some c"
    by (auto simp: Let_def split: option.splits)
  let ?a1 = "AList.update (uav_id u) (buckets_get buckets i) assignments"
  from Cons.prems(1) c obtain s1 where
    "build_output buckets (i + 1) us ?a1 s1 = Inr (assignments', stats')"
    by (simp add: Let_def)
  from Cons.IH [OF this Cons.prems(2)]
  have "a \<in> set ?a1 \<or> (\<exists>j. snd a = buckets_get buckets j)" .
  then show ?case
  proof
    assume "a \<in> set ?a1"
    with alist_update_set [of "uav_id u" "buckets_get buckets i" assignments]
    have "a = (uav_id u, buckets_get buckets i) \<or> a \<in> set assignments" by auto
    then show ?thesis by auto
  qed simp
qed

lemma buckets_get_subset: "set (buckets_get buckets j) \<subseteq> set (concat buckets)"
  by (auto simp: buckets_get_def intro: nth_mem)

lemma assign_cells_subset:
  assumes res: "assign_hexes_to_uavs kmeans_fit hex_cells uavs k_arg = (uavs', Inr (assignments, stats))"
  shows "set (concat (map snd assignments)) \<subseteq> set hex_cells"
proof -
  from assign_success [OF res] obtain capacities labels cluster_centers buckets buckets' iters k where
    bb: "build_buckets hex_cells 0 labels (replicate k []) = Inr buckets"
    and rb: "rebalance capacities cluster_centers k buckets = Inr (buckets', iters)"
    and out: "build_output buckets' 0 uavs' [] [] = Inr (assignments, stats)"
    by blast
  from build_buckets_inv [OF bb]
  have "mset (concat buckets) = mset (take (length labels) hex_cells)" by simp
  then have "set (concat buckets) = set (take (length labels) hex_cells)" by (rule mset_eq_setD)
  then have 1: "set (concat buckets) \<subseteq> set hex_cells" by (auto dest: in_set_takeD)
  from rb have "mset (concat buckets') = mset (concat buckets)"
    unfolding rebalance_def by (simp add: rebalance_loop_inv)
  then have "set (concat buckets') = set (concat buckets)" by (rule mset_eq_setD)
  with 1 have 2: "set (concat buckets') \<subseteq> set hex_cells" by simp
  show ?thesis
  proof
    fix c assume "c \<in> set (concat (map snd assignments))"
    then obtain a where a: "a \<in> set assignments" "c \<in> set (snd a)" by auto
    from build_output_values [OF out a(1)] obtain j where "snd a = buckets_get buckets' j" by auto
    with a(2) buckets_get_subset [of buckets' j] 2 show "c \<in> set hex_cells" by auto
  qed
qed

lemma bucket_step_index:
  "bucket_step capacities cluster_centers k buckets b = Inr r \<Longrightarrow> b < length capacities"
  by (auto simp: bucket_step_def split: if_splits)

lemma pass_loop_index:
  "pass_loop capacities cluster_centers k bs buckets changed = Inr r \<Longrightarrow>
   \<forall>b \<in> set bs. b < length capacities"
proof (induction bs arbitrary: buckets changed)
  case Nil
  then show ?case by simp
next
  case (Cons b bs)
  from Cons.prems obtain b1 moved where
    st: "bucket_step capacities cluster_centers k buckets b = Inr (b1, moved)"
    and rest: "pass_loop capacities cluster_centers k bs b1 (changed \<or> moved) = Inr r"
    by (auto split: sum.splits)
  from bucket_step_index [OF st] Cons.IH [OF rest] show ?case by simp
qed

lemma rebalance_index:
  assumes "rebalance capacities cluster_centers k buckets = Inr r"
  shows "k \<le> length capacities"
proof -
  have "0 < max_iters_of k" by (simp add: max_iters_of_def)
  with assms obtain r' where "rebalance_pass capacities cluster_centers k buckets = Inr r'"
    unfolding rebalance_def by (auto simp: rebalance_loop_step split: sum.splits)
  then have "\<forall>b \<in> set [0..<k]. b < length capacities"
    unfolding rebalance_pass_def by (rule pass_loop_index)
  then show ?thesis by (cases k) auto
qed

lemma assign_k_le:
  assumes res: "assign_hexes_to_uavs kmeans_fit hex_cells uavs k_arg = (uavs', Inr (assignments, stats))"
  shows "(case k_arg of None \<Rightarrow> length uavs | Some k' \<Rightarrow> k') \<le> length uavs"
proof -
  from assign_success [OF res] obtain capacities cluster_centers buckets buckets' iters where
    fill: "fill_capacities (sum_list (map hex_workload hex_cells)) (battery_sum uavs) uavs = (uavs', None)"
    and rc: "read_capacities uavs' = Inr capacities"
    and rb: "rebalance capacities cluster_centers
               (case k_arg of None \<Rightarrow> length uavs | Some k' \<Rightarrow> k') buckets = Inr (buckets', iters)"
    and out: "build_output buckets' 0 uavs' [] [] = Inr (assignments, stats)"
    by blast
  from fill_capacities_frame [OF fill] read_capacities_length [OF rc]
  have "length capacities = length uavs" by simp
  with rebalance_index [OF rb] show ?thesis by simp
qed

section \<open>Passes of the loop\<close>

lemma rebalance_loop_count:
  "rebalance_loop capacities cluster_centers k max_iters changed iter_count buckets = Inr (buckets', n) \<Longrightarrow>
   iter_count \<le> n \<and> (iter_count \<le> max_iters \<longrightarrow> n \<le> max_iters) \<and>
   (changed \<and> iter_count < max_iters \<longrightarrow> iter_count < n)"
proof (induction capacities cluster_centers k max_iters changed iter_count buckets
    rule: rebalance_loop.induct)
  case (1 capacities cluster_centers k max_iters changed iter_count buckets)
  show ?case
  proof (cases "changed \<and> iter_count < max_iters")
    case False
    with "1.prems" show ?thesis by (auto simp: rebalance_loop_stop)
  next
    case True
    with "1.prems" obtain b1 ch1 where
      p: "rebalance_pass capacities cluster_centers k buckets = Inr (b1, ch1)"
      and r: "rebalance_loop capacities cluster_centers k max_iters ch1 (iter_count + 1) b1 = Inr (buckets', n)"
      by (auto simp: rebalance_loop_step split: sum.splits)
    from "1.IH" [OF True p refl r] True show ?thesis by simp
  qed
qed

lemma try_move_unmoved:
  "try_move capacities cluster_centers k buckets b hs = Inr (buckets', False) \<Longrightarrow> buckets' = buckets"
proof (induction hs)
  case Nil
  then show ?case by simp
next
  case (Cons h hs)
  then show ?case by (auto simp: Let_def split: sum.splits if_splits)
qed

lemma bucket_step_unmoved:
  "bucket_step capacities cluster_centers k buckets b = Inr (buckets', False) \<Longrightarrow> buckets' = buckets"
  by (auto simp: bucket_step_def Let_def split: if_splits dest: try_move_unmoved)

lemma pass_loop_changed_mono:
  "pass_loop capacities cluster_centers k bs buckets changed = Inr (buckets', changed') \<Longrightarrow>
   changed \<Longrightarrow> changed'"
proof (induction bs arbitrary: buckets changed)
  case Nil
  then show ?case by simp
next
  case (Cons b bs)
  from Cons.prems(1) obtain b1 moved where
    "pass_loop capacities cluster_centers k bs b1 (changed \<or> moved) = Inr (buckets', changed')"
    by (auto split: sum.splits)
  from Cons.IH [OF this] Cons.prems(2) show ?case by simp
qed

lemma pass_loop_unmoved:
  "pass_loop capacities cluster_centers k bs buckets changed = Inr (buckets', False) \<Longrightarrow>
   buckets' = buckets"
proof (induction bs arbitrary: buckets changed)
  case Nil
  then show ?case by simp
next
  case (Cons b bs)
  from Cons.prems obtain b1 moved where
    st: "bucket_step capacities cluster_centers k buckets b = Inr (b1, moved)"
    and rest: "pass_loop capacities cluster_centers k bs b1 (changed \<or> moved) = Inr (buckets', False)"
    by (auto split: sum.splits)
  from pass_loop_changed_mono [OF rest] have "\<not> moved" by auto
  with st have "b1 = buckets" by (simp add: bucket_step_unmoved)
  with Cons.IH [OF rest] show ?case by simp
qed

lemma rebalance_loop_fixpoint:
  "rebalance_loop capacities cluster_centers k max_iters changed iter_count buckets = Inr (buckets', n) \<Longrightarrow>
   changed \<Longrightarrow> n < max_iters \<Longrightarrow>
   rebalance_pass capacities cluster_centers k buckets' = Inr (buckets', False)"
proof (induction capacities cluster_centers k max_iters changed iter_count buckets
    rule: rebalance_loop.induct)
  case (1 capacities cluster_centers k max_iters changed iter_count buckets)
  show ?case
  proof (cases "changed \<and> iter_count < max_iters")
    case False
    with "1.prems" show ?thesis by (auto simp: rebalance_loop_stop)
  next
    case True
    with "1.prems" obtain b1 ch1 where
      p: "rebalance_pass capacities cluster_centers k buckets = Inr (b1, ch1)"
      and r: "rebalance_loop capacities cluster_centers k max_iters ch1 (iter_count + 1) b1 = Inr (buckets', n)"
      by (auto simp: rebalance_loop_step split: sum.splits)
    show ?thesis
    proof (cases ch1)
      case True
      from "1.IH" [OF \<open>changed \<and> iter_count < max_iters\<close> p refl r True "1.prems"(3)]
      show ?thesis .
    next
      case False
      with r have "buckets' = b1" by (simp add: rebalance_loop_stop)
      moreover from p False have "b1 = buckets"
        unfolding rebalance_pass_def by (simp add: pass_loop_unmoved)
      ultimately show ?thesis using p False by simp
    qed
  qed
qed

lemma pass_loop_feasible:
  "\<forall>b \<in> set bs. b < length buckets \<and> b < length capacities \<and>
     bucket_workload (buckets ! b) \<le> capacities ! b \<Longrightarrow>
   pass_loop capacities cluster_centers k bs buckets changed = Inr (buckets, changed)"
  by (induction bs arbitrary: changed) (simp_all add: bucket_step_def)

lemma rebalance_loop_no_move:
  assumes "iter_count < max_iters"
    and "rebalance_pass capacities cluster_centers k buckets = Inr (buckets1, False)"
  shows "rebalance_loop capacities cluster_centers k max_iters True iter_count buckets
           = Inr (buckets, iter_count + 1)"
proof -
  from assms(2) have "buckets1 = buckets"
    unfolding rebalance_pass_def by (simp add: pass_loop_unmoved)
  with assms show ?thesis
    by (simp add: rebalance_loop_step rebalance_loop_stop)
qed

lemma rebalance_loop_oscillate:
  assumes "rebalance_pass capacities cluster_centers k buckets = Inr (buckets, True)"
  shows "iter_count \<le> max_iters \<Longrightarrow>
    rebalance_loop capacities cluster_centers k max_iters True iter_count buckets = Inr (buckets, max_iters)"
proof (induction "max_iters - iter_count" arbitrary: iter_count)
  case 0
  then show ?case by (simp add: rebalance_loop_stop)
next
  case (Suc d)
  then have lt: "iter_count < max_iters" and d: "d = max_iters - (iter_count + 1)"
    and le: "iter_count + 1 \<le> max_iters" by simp_all
  from Suc.hyps(1) [OF d le] lt assms show ?case
    by (simp add: rebalance_loop_step)
qed

lemma ex_osc_pass:
  "rebalance_pass [3, 3] [(1/4, 0), (10, 0)] 2 ex_osc = Inr (ex_osc, True)"
  by (simp add: ex_osc_def rebalance_pass_def bucket_step_def bucket_workload_def Let_def
      numeral_2_eq_2)

lemma ex_osc_rebalance: "rebalance [3, 3] [(1/4, 0), (10, 0)] 2 ex_osc = Inr (ex_osc, 200)"
  unfolding rebalance_def using rebalance_loop_oscillate [OF ex_osc_pass, of 0 "max_iters_of 2"]
  by (simp add: max_iters_of_def)









section \<open>The hexagon grid\<close>

lemma HEX_CONST_pos: "0 < HEX_CONST"
  by (simp add: HEX_CONST_def)

lemma ACRE_M2_pos: "0 < ACRE_M2"
  by (simp add: ACRE_M2_def)

lemma cos_sin_hex:
  "cos (radians 30) = sqrt 3 / 2" "sin (radians 30) = 1 / 2"
  "cos (radians 90) = 0" "sin (radians 90) = 1"
  "cos (radians 150) = - (sqrt 3 / 2)" "sin (radians 150) = 1 / 2"
  "cos (radians 210) = - (sqrt 3 / 2)" "sin (radians 210) = - (1 / 2)"
  "cos (radians 270) = 0" "sin (radians 270) = - 1"
  "cos (radians 330) = sqrt 3 / 2" "sin (radians 330) = - (1 / 2)"
proof -
  have r30: "radians 30 = pi / 6" and r90: "radians 90 = pi / 2"
    and r150: "radians 150 = pi - pi / 6" and r210: "radians 210 = pi + pi / 6"
    and r270: "radians 270 = 3 / 2 * pi" and r330: "radians 330 = 2 * pi - pi / 6"
    by (simp_all add: radians_def)
  show "cos (radians 30) = sqrt 3 / 2" "sin (radians 30) = 1 / 2"
    unfolding r30 by (simp_all add: cos_30 sin_30)
  show "cos (radians 90) = 0" "sin (radians 90) = 1"
    unfolding r90 by simp_all
  show "cos (radians 150) = - (sqrt 3 / 2)" "sin (radians 150) = 1 / 2"
    unfolding r150 cos_diff sin_diff by (simp_all add: cos_30 sin_30)
  show "cos (radians 210) = - (sqrt 3 / 2)" "sin (radians 210) = - (1 / 2)"
    unfolding r210 cos_add sin_add by (simp_all add: cos_30 sin_30)
  show "cos (radians 270) = 0"
    unfolding r270 by (rule cos_3over2_pi)
  show "sin (radians 270) = - 1"
    unfolding r270 by (rule sin_3over2_pi)
  show "cos (radians 330) = sqrt 3 / 2" "sin (radians 330) = - (1 / 2)"
    unfolding r330 cos_diff sin_diff by (simp_all add: cos_30 sin_30)
qed

lemma hexagon_vertices_eq:
  "hexagon_vertices cx cy s =
    [(cx + s * (sqrt 3 / 2), cy + s * (1 / 2)), (cx, cy + s),
     (cx - s * (sqrt 3 / 2), cy + s * (1 / 2)), (cx - s * (sqrt 3 / 2), cy - s * (1 / 2)),
     (cx, cy - s), (cx + s * (sqrt 3 / 2), cy - s * (1 / 2))]"
proof -
  have "[0..<6] = [0, 1, 2, 3, 4, 5]" by (simp add: upt_rec)
  then show ?thesis
    by (simp add: hexagon_vertices_def Let_def cos_sin_hex)
qed

lemma hexagon_shoelace: "shoelace_area (hexagon_vertices cx cy s) = hex_area s"
proof -
  have "(\<Sum>(p, q)\<leftarrow>zip (hexagon_vertices cx cy s) (rotate1 (hexagon_vertices cx cy s)).
          fst p * snd q - fst q * snd p) = 3 * sqrt 3 * s\<^sup>2"
    unfolding hexagon_vertices_eq
    by (simp add: power2_eq_square field_simps)
  moreover have "0 \<le> 3 * sqrt 3 * s\<^sup>2" by simp
  ultimately show ?thesis
    by (simp add: shoelace_area_def hex_area_def HEX_CONST_def)
qed

lemma clip_loop_ids:
  "map cell_id hex_cells = map int [0..<length hex_cells] \<Longrightarrow> hex_id = int (length hex_cells) \<Longrightarrow>
   map cell_id (clip_loop G farm_polygon ignore_slivers hs hex_cells hex_id)
     = map int [0..<length (clip_loop G farm_polygon ignore_slivers hs hex_cells hex_id)]"
proof (induction hs arbitrary: hex_cells hex_id)
  case Nil
  then show ?case by simp
next
  case (Cons h hs)
  obtain c hex_poly where h: "h = (c, hex_poly)" by (cases h)
  let ?cell = "\<lparr>cell_id = hex_id, center = c, poly = geo_intersection G hex_poly farm_polygon,
      area_m2 = geo_area G (geo_intersection G hex_poly farm_polygon),
      priority = None, restricted = None\<rparr>"
  have app: "map cell_id (hex_cells @ [?cell]) = map int [0..<length (hex_cells @ [?cell])]"
    "hex_id + 1 = int (length (hex_cells @ [?cell]))"
    using Cons.prems by simp_all
  show ?case
    unfolding h using Cons.IH [OF Cons.prems] Cons.IH [OF app]
    by (cases ignore_slivers) (simp_all add: Let_def)
qed

lemma clip_loop_cells:
  "c \<in> set (clip_loop G farm_polygon ignore_slivers hs hex_cells hex_id) \<Longrightarrow>
   c \<in> set hex_cells \<or>
   (\<exists>h \<in> set hs. geo_intersects G (snd h) farm_polygon \<and> center c = fst h \<and>
      poly c = geo_intersection G (snd h) farm_polygon \<and> area_m2 c = geo_area G (poly c) \<and>
      priority c = None \<and> restricted c = None \<and>
      (ignore_slivers \<longrightarrow> 1 < area_m2 c))"
proof (induction hs arbitrary: hex_cells hex_id)
  case Nil
  then show ?case by simp
next
  case (Cons h hs)
  obtain ctr hex_poly where h: "h = (ctr, hex_poly)" by (cases h)
  let ?cell = "\<lparr>cell_id = hex_id, center = ctr, poly = geo_intersection G hex_poly farm_polygon,
      area_m2 = geo_area G (geo_intersection G hex_poly farm_polygon),
      priority = None, restricted = None\<rparr>"
  let ?kept = "geo_intersects G hex_poly farm_polygon \<and>
      (ignore_slivers \<longrightarrow> 1 < geo_area G (geo_intersection G hex_poly farm_polygon))"
  show ?case
  proof (cases ?kept)
    case True
    with Cons.prems have "c \<in> set (clip_loop G farm_polygon ignore_slivers hs (hex_cells @ [?cell]) (hex_id + 1))"
      unfolding h by (auto simp: Let_def split: if_splits)
    from Cons.IH [OF this] True show ?thesis unfolding h by auto
  next
    case False
    with Cons.prems have "c \<in> set (clip_loop G farm_polygon ignore_slivers hs hex_cells hex_id)"
      unfolding h by (auto simp: Let_def split: if_splits)
    from Cons.IH [OF this] show ?thesis by auto
  qed
qed

lemma clip_loop_keeps_all:
  "\<forall>h \<in> set hs. geo_intersects G (snd h) farm_polygon \<and>
      (ignore_slivers \<longrightarrow> 1 < geo_area G (geo_intersection G (snd h) farm_polygon)) \<Longrightarrow>
   length (clip_loop G farm_polygon ignore_slivers hs hex_cells hex_id) = length hex_cells + length hs"
proof (induction hs arbitrary: hex_cells hex_id)
  case Nil
  then show ?case by simp
next
  case (Cons h hs)
  obtain ctr hex_poly where h: "h = (ctr, hex_poly)" by (cases h)
  from Cons.prems have rest: "\<forall>h \<in> set hs. geo_intersects G (snd h) farm_polygon \<and>
      (ignore_slivers \<longrightarrow> 1 < geo_area G (geo_intersection G (snd h) farm_polygon))" by simp
  from Cons.prems Cons.IH [OF rest] show ?case
    unfolding h by (cases ignore_slivers) (simp_all add: Let_def)
qed

lemma generate_hex_grid_shape:
  assumes "generate_hex_grid G farm_polygon cell_acres ignore_slivers = Inr cells"
  shows "\<exists>s hs. compute_hex_side_for_acres cell_acres = Inr s \<and> s \<noteq> 0 \<and>
           cells = clip_loop G farm_polygon ignore_slivers hs [] 0 \<and>
           (\<forall>h \<in> set hs. snd h = hex_center_to_polygon G (fst (fst h)) (snd (fst h)) s)"
proof -
  from assms obtain s where s: "compute_hex_side_for_acres cell_acres = Inr s"
    by (auto simp: generate_hex_grid_def split: sum.splits)
  obtain minx miny maxx maxy where b: "geo_bounds G farm_polygon = (minx, miny, maxx, maxy)"
    by (cases "geo_bounds G farm_polygon")
  from assms s b have s0: "s \<noteq> 0"
    by (auto simp: generate_hex_grid_def Let_def split: if_splits)
  let ?raw = "raw_hexes_of G s (\<lfloor>(minx - 3 * s) / (s * sqrt 3)\<rfloor> - 3) (\<lceil>(maxx + 3 * s) / (s * sqrt 3)\<rceil> + 3)
      (\<lfloor>(miny - 3 * s) / (1.5 * s)\<rfloor> - 3) (\<lceil>(maxy + 3 * s) / (1.5 * s)\<rceil> + 3)"
  show ?thesis
  proof (cases "?raw = []")
    case True
    with assms s b s0 have "cells = []"
      by (simp add: generate_hex_grid_def Let_def)
    then have "cells = clip_loop G farm_polygon ignore_slivers [] [] 0 \<and>
           (\<forall>h \<in> set ([] :: (point \<times> 'a) list).
              snd h = hex_center_to_polygon G (fst (fst h)) (snd (fst h)) s)" by simp
    with s s0 show ?thesis by blast
  next
    case False
    let ?off_x = "(minx + maxx) / 2 - sum_list (map (\<lambda>(q, r, c, p). fst c) ?raw)
        / real (length (map (\<lambda>(q, r, c, p). fst c) ?raw))"
    let ?off_y = "(miny + maxy) / 2 - sum_list (map (\<lambda>(q, r, c, p). snd c) ?raw)
        / real (length (map (\<lambda>(q, r, c, p). snd c) ?raw))"
    let ?tr = "map (\<lambda>(q, r, (cx, cy), p).
        ((cx + ?off_x, cy + ?off_y), hex_center_to_polygon G (cx + ?off_x) (cy + ?off_y) s)) ?raw"
    from assms s b s0 False have "cells = clip_loop G farm_polygon ignore_slivers ?tr [] 0"
      by (simp add: generate_hex_grid_def Let_def)
    moreover have "\<forall>h \<in> set ?tr. snd h = hex_center_to_polygon G (fst (fst h)) (snd (fst h)) s"
      by auto
    ultimately show ?thesis using s s0 by blast
  qed
qed

lemma compute_hex_side_pos:
  assumes "0 < cell_acres"
  shows "\<exists>s. compute_hex_side_for_acres cell_acres = Inr s \<and> 0 < s \<and>
             hex_area s = cell_acres * ACRE_M2"
proof -
  from assms ACRE_M2_pos HEX_CONST_pos have pos: "0 < cell_acres * ACRE_M2 / HEX_CONST" by simp
  then have "compute_hex_side_for_acres cell_acres = Inr (sqrt (cell_acres * ACRE_M2 / HEX_CONST))"
    by (simp add: compute_hex_side_for_acres_def Let_def not_less)
  moreover from pos have "0 < sqrt (cell_acres * ACRE_M2 / HEX_CONST)" by simp
  moreover from pos HEX_CONST_pos
  have "hex_area (sqrt (cell_acres * ACRE_M2 / HEX_CONST)) = cell_acres * ACRE_M2"
    by (simp add: hex_area_def)
  ultimately show ?thesis by blast
qed

lemma generate_hex_grid_returns:
  assumes "0 < cell_acres"
  shows "\<exists>cells. generate_hex_grid G farm_polygon cell_acres ignore_slivers = Inr cells"
proof -
  from compute_hex_side_pos [OF assms] obtain s where
    s: "compute_hex_side_for_acres cell_acres = Inr s" "0 < s" by blast
  obtain minx miny maxx maxy where b: "geo_bounds G farm_polygon = (minx, miny, maxx, maxy)"
    by (cases "geo_bounds G farm_polygon")
  from s b show ?thesis
    by (simp add: generate_hex_grid_def Let_def)
qed

lemma raw_hexes_nonempty:
  assumes "q_min \<le> q_max" "r_min \<le> r_max"
  shows "raw_hexes_of G s q_min q_max r_min r_max \<noteq> []"
proof -
  from assms(2) have "r_min \<in> set [r_min..r_max]" by simp
  moreover from assms(1) have "[q_min..q_max] \<noteq> []" by simp
  ultimately show ?thesis
    unfolding raw_hexes_of_def by (auto simp del: upto.simps)
qed

lemma floor_le_ceiling:
  fixes a b :: real
  assumes "a \<le> b"
  shows "\<lfloor>a\<rfloor> - 3 \<le> \<lceil>b\<rceil> + 3"
proof -
  have "of_int \<lfloor>a\<rfloor> \<le> a" by simp
  also note assms
  also have "b \<le> of_int \<lceil>b\<rceil>" by simp
  finally have "\<lfloor>a\<rfloor> \<le> \<lceil>b\<rceil>" by simp
  then show ?thesis by simp
qed

lemma generate_hex_grid_nonempty:
  assumes acres: "0 < cell_acres"
    and b: "geo_bounds G farm_polygon = (minx, miny, maxx, maxy)"
    and box: "minx \<le> maxx" "miny \<le> maxy"
    and keep: "\<And>s cx cy. compute_hex_side_for_acres cell_acres = Inr s \<Longrightarrow>
        geo_intersects G (hex_center_to_polygon G cx cy s) farm_polygon \<and>
        (ignore_slivers \<longrightarrow>
           1 < geo_area G (geo_intersection G (hex_center_to_polygon G cx cy s) farm_polygon))"
  shows "\<exists>cells. generate_hex_grid G farm_polygon cell_acres ignore_slivers = Inr cells \<and> cells \<noteq> []"
proof -
  from compute_hex_side_pos [OF acres] obtain s where
    s: "compute_hex_side_for_acres cell_acres = Inr s" "0 < s" by blast
  let ?qmin = "\<lfloor>(minx - 3 * s) / (s * sqrt 3)\<rfloor> - 3" and ?qmax = "\<lceil>(maxx + 3 * s) / (s * sqrt 3)\<rceil> + 3"
  let ?rmin = "\<lfloor>(miny - 3 * s) / (1.5 * s)\<rfloor> - 3" and ?rmax = "\<lceil>(maxy + 3 * s) / (1.5 * s)\<rceil> + 3"
  let ?raw = "raw_hexes_of G s ?qmin ?qmax ?rmin ?rmax"
  from s(2) box(1) have "(minx - 3 * s) / (s * sqrt 3) \<le> (maxx + 3 * s) / (s * sqrt 3)"
    by (intro divide_right_mono) simp_all
  then have q: "?qmin \<le> ?qmax" by (rule floor_le_ceiling)
  from s(2) box(2) have "(miny - 3 * s) / (1.5 * s) \<le> (maxy + 3 * s) / (1.5 * s)"
    by (intro divide_right_mono) simp_all
  then have r: "?rmin \<le> ?rmax" by (rule floor_le_ceiling)
  from raw_hexes_nonempty [OF q r] have raw: "?raw \<noteq> []" .
  let ?off_x = "(minx + maxx) / 2 - sum_list (map (\<lambda>(q, r, c, p). fst c) ?raw)
      / real (length (map (\<lambda>(q, r, c, p). fst c) ?raw))"
  let ?off_y = "(miny + maxy) / 2 - sum_list (map (\<lambda>(q, r, c, p). snd c) ?raw)
      / real (length (map (\<lambda>(q, r, c, p). snd c) ?raw))"
  let ?tr = "map (\<lambda>(q, r, (cx, cy), p).
      ((cx + ?off_x, cy + ?off_y), hex_center_to_polygon G (cx + ?off_x) (cy + ?off_y) s)) ?raw"
  from s b raw have g: "generate_hex_grid G farm_polygon cell_acres ignore_slivers
      = Inr (clip_loop G farm_polygon ignore_slivers ?tr [] 0)"
    by (simp add: generate_hex_grid_def Let_def)
  from keep [OF s(1)] have "\<forall>h \<in> set ?tr. geo_intersects G (snd h) farm_polygon \<and>
      (ignore_slivers \<longrightarrow> 1 < geo_area G (geo_intersection G (snd h) farm_polygon))" by auto
  from clip_loop_keeps_all [OF this, of "[]" 0] raw
  have "clip_loop G farm_polygon ignore_slivers ?tr [] 0 \<noteq> []" by auto
  with g show ?thesis by simp
qed

lemma ex_geometry_simps:
  "geo_polygon ex_geometry vs = vs" "geo_intersects ex_geometry p q"
  "geo_intersection ex_geometry p q = p" "geo_area ex_geometry p = shoelace_area p"
  "geo_bounds ex_geometry ex_farm = (0, 0, 1000, 800)"
  by (simp_all add: ex_geometry_def ex_farm_def)

lemma ex_grid_nonempty:
  "\<exists>cells. generate_hex_grid ex_geometry ex_farm (1/2) True = Inr cells \<and> cells \<noteq> []"
proof (rule generate_hex_grid_nonempty [OF _ ex_geometry_simps(5)])
  fix s cx cy assume "compute_hex_side_for_acres (1/2) = Inr s"
  with compute_hex_side_pos [of "1/2"] have "hex_area s = 1/2 * ACRE_M2" by auto
  then have "1 < hex_area s" by (simp add: ACRE_M2_def)
  then show "geo_intersects ex_geometry (hex_center_to_polygon ex_geometry cx cy s) ex_farm \<and>
        (True \<longrightarrow> 1 < geo_area ex_geometry
           (geo_intersection ex_geometry (hex_center_to_polygon ex_geometry cx cy s) ex_farm))"
    by (simp add: ex_geometry_simps hex_center_to_polygon_def hexagon_shoelace)
qed simp_all

lemma dup_assign:
  "assign_hexes_to_uavs ex_kmeans3 ex_cells dup_uavs None =
    ([\<lparr>uav_id = 7, battery_pct = Some (1/2), capacity_workload = Some 1\<rparr>,
      \<lparr>uav_id = 8, battery_pct = Some (1/2), capacity_workload = Some 1\<rparr>,
      \<lparr>uav_id = 7, battery_pct = Some (1/2), capacity_workload = Some 1\<rparr>],
     Inr ([(7, [ex_cell 2 10 1]), (8, [ex_cell 1 1 1])],
          [(7, \<lparr>count_hexes = 1, workload = 1, capacity = 1, stat_battery_pct = Some (1/2)\<rparr>),
           (8, \<lparr>count_hexes = 1, workload = 1, capacity = 1, stat_battery_pct = Some (1/2)\<rparr>)]))"
  by (simp add: assign_hexes_to_uavs_def ex_kmeans3_def ex_cells_def dup_uavs_def Let_def
      battery_sum_def battery_of_def rebalance_def max_iters_of_def rebalance_loop.simps
      rebalance_pass_def bucket_step_def bucket_workload_def buckets_get_def numeral_3_eq_3)

section \<open>The claims\<close>

text \<open>
  C1, as stated, fails: the returned dictionaries are keyed by \<open>u['id']\<close>, so when two
  vehicles carry the same id the later one overwrites the entry of the earlier one. With ids
  7, 8, 7, one unit cell per bucket and \<open>k = 3\<close>, no cell moves, the call returns, and the
  cell of bucket 0 is in no vehicle's list: the lists hold two of the three cells.
\<close>

theorem assign_duplicate_ids_counterexample:
  "length dup_uavs = 3 \<and>
   ex_kmeans3 (length dup_uavs) (map center ex_cells) = Some ([0, 1, 2], [(0, 0), (1, 0), (10, 0)]) \<and>
   length [0, 1, 2 :: nat] = length ex_cells \<and>
   snd (assign_hexes_to_uavs ex_kmeans3 ex_cells dup_uavs None) =
     Inr ([(7, [ex_cell 2 10 1]), (8, [ex_cell 1 1 1])],
          [(7, \<lparr>count_hexes = 1, workload = 1, capacity = 1, stat_battery_pct = Some (1/2)\<rparr>),
           (8, \<lparr>count_hexes = 1, workload = 1, capacity = 1, stat_battery_pct = Some (1/2)\<rparr>)]) \<and>
   ex_cell 0 0 1 \<in> set ex_cells \<and>
   ex_cell 0 0 1 \<notin> set (concat (map snd [(7 :: int, [ex_cell 2 10 1]), (8, [ex_cell 1 1 1])])) \<and>
   mset (concat (map snd [(7 :: int, [ex_cell 2 10 1]), (8, [ex_cell 1 1 1])])) \<noteq> mset ex_cells \<and>
   (\<Sum>a\<leftarrow>[(7 :: int, [ex_cell 2 10 1]), (8, [ex_cell 1 1 1])]. length (snd a)) \<noteq> length ex_cells"
  unfolding dup_assign by (simp add: dup_uavs_def ex_kmeans3_def ex_cells_def)

text \<open>
  C1, amended. Whenever \<open>assign_hexes_to_uavs\<close> returns, with pairwise different vehicle
  ids, a clustering that returns one label per cell, and \<open>k\<close> equal to the number of
  vehicles (given, or defaulted from \<open>None\<close>), the returned assignment is an exact partition
  of the input cells: as multisets, the concatenation of the vehicles' lists is the input
  list, so no cell is duplicated or dropped; when the input cells are pairwise different,
  every cell lies in the list of exactly one vehicle; the assigned-cell counts add up to the
  number of input cells and the assigned workloads add up to the total workload, both in the
  assignment and in the statistics.
\<close>

theorem assign_exact_partition:
  assumes "assign_hexes_to_uavs kmeans_fit hex_cells uavs k_arg = (uavs', Inr (assignments, stats))"
    and "k_arg = None \<or> k_arg = Some (length uavs)"
    and "distinct (map uav_id uavs)"
    and "\<forall>labels cc. kmeans_fit (length uavs) (map center hex_cells) = Some (labels, cc) \<longrightarrow>
           length labels = length hex_cells"
  shows "map fst assignments = map uav_id uavs \<and>
         mset (concat (map snd assignments)) = mset hex_cells \<and>
         (distinct hex_cells \<longrightarrow>
            (\<forall>c \<in> set hex_cells. \<exists>!j. j < length assignments \<and> c \<in> set (snd (assignments ! j)))) \<and>
         (\<Sum>a\<leftarrow>assignments. length (snd a)) = length hex_cells \<and>
         (\<Sum>a\<leftarrow>assignments. bucket_workload (snd a)) = (\<Sum>h\<leftarrow>hex_cells. hex_workload h) \<and>
         (\<Sum>s\<leftarrow>stats. count_hexes (snd s)) = length hex_cells \<and>
         (\<Sum>s\<leftarrow>stats. workload (snd s)) = (\<Sum>h\<leftarrow>hex_cells. hex_workload h)"
proof -
  have k: "length uavs = (case k_arg of None \<Rightarrow> length uavs | Some k' \<Rightarrow> k')"
    using assms(2) by auto
  from assign_partition [OF assms(1) k le_refl assms(3) assms(4)]
  have ids: "map fst assignments = map uav_id uavs"
    and ms: "mset (concat (map snd assignments)) = mset hex_cells"
    and cnt: "map (\<lambda>s. count_hexes (snd s)) stats = map (\<lambda>a. length (snd a)) assignments"
    and wl: "map (\<lambda>s. workload (snd s)) stats = map (\<lambda>a. bucket_workload (snd a)) assignments"
    by simp_all
  have len: "(\<Sum>a\<leftarrow>assignments. length (snd a)) = length hex_cells"
  proof -
    have "(\<Sum>a\<leftarrow>assignments. length (snd a)) = length (concat (map snd assignments))"
      by (simp add: length_concat comp_def)
    also have "\<dots> = size (mset (concat (map snd assignments)))" by simp
    also have "\<dots> = length hex_cells" unfolding ms by simp
    finally show ?thesis .
  qed
  have sw: "(\<Sum>a\<leftarrow>assignments. bucket_workload (snd a)) = (\<Sum>h\<leftarrow>hex_cells. hex_workload h)"
  proof -
    have "(\<Sum>a\<leftarrow>assignments. bucket_workload (snd a)) = sum_list (map bucket_workload (map snd assignments))"
      by (simp add: comp_def)
    also have "\<dots> = sum_list (map hex_workload (concat (map snd assignments)))"
      by (rule sum_list_bucket_workload)
    also have "\<dots> = (\<Sum>h\<leftarrow>hex_cells. hex_workload h)"
      using ms by (rule sum_list_hex_workload_mset)
    finally show ?thesis .
  qed
  have uniq: "\<forall>c \<in> set hex_cells. \<exists>!j. j < length assignments \<and> c \<in> set (snd (assignments ! j))"
    if d: "distinct hex_cells"
  proof
    fix c assume c: "c \<in> set hex_cells"
    from mset_eq_imp_distinct_iff [OF ms] d have dc: "distinct (concat (map snd assignments))"
      by simp
    from c ms have "c \<in> set (concat (map snd assignments))"
      by (metis set_mset_mset)
    then obtain a where "a \<in> set assignments" "c \<in> set (snd a)"
      by auto
    then obtain j where j: "j < length assignments" "c \<in> set (snd (assignments ! j))"
      by (metis in_set_conv_nth)
    show "\<exists>!j. j < length assignments \<and> c \<in> set (snd (assignments ! j))"
    proof (rule ex1I [of _ j])
      show "j < length assignments \<and> c \<in> set (snd (assignments ! j))" using j by simp
    next
      fix i assume i: "i < length assignments \<and> c \<in> set (snd (assignments ! i))"
      with j distinct_concat_unique [OF dc, of i j c] show "i = j" by simp
    qed
  qed
  from cnt have "(\<Sum>s\<leftarrow>stats. count_hexes (snd s)) = (\<Sum>a\<leftarrow>assignments. length (snd a))"
    by simp
  moreover from wl have "(\<Sum>s\<leftarrow>stats. workload (snd s)) = (\<Sum>a\<leftarrow>assignments. bucket_workload (snd a))"
    by simp
  ultimately show ?thesis using ids ms len sw uniq by simp
qed

text \<open>The concrete run satisfies the hypotheses, and the partition holds there.\<close>

theorem assign_exact_partition_witness:
  "(\<exists>uavs' assignments stats.
      assign_hexes_to_uavs ex_kmeans ex_cells ex_uavs None = (uavs', Inr (assignments, stats)) \<and>
      distinct (map uav_id ex_uavs) \<and> distinct ex_cells \<and>
      map fst assignments = map uav_id ex_uavs \<and>
      mset (concat (map snd assignments)) = mset ex_cells \<and>
      (\<Sum>a\<leftarrow>assignments. length (snd a)) = length ex_cells \<and>
      (\<Sum>a\<leftarrow>assignments. bucket_workload (snd a)) = (\<Sum>h\<leftarrow>ex_cells. hex_workload h) \<and>
      (\<Sum>s\<leftarrow>stats. count_hexes (snd s)) = length ex_cells \<and>
      (\<Sum>s\<leftarrow>stats. workload (snd s)) = (\<Sum>h\<leftarrow>ex_cells. hex_workload h))"
proof -
  have d: "distinct (map uav_id ex_uavs)" by (simp add: ex_uavs_def)
  have dc: "distinct ex_cells" by (simp add: ex_cells_def)
  have km: "\<forall>labels cc. ex_kmeans (length ex_uavs) (map center ex_cells) = Some (labels, cc) \<longrightarrow>
      length labels = length ex_cells"
    by (simp add: ex_kmeans_def ex_cells_def)
  from assign_exact_partition [OF ex_assign _ d km] d dc show ?thesis
    unfolding ex_assign by simp
qed



text \<open>
  C3. In every call that gets past the capacity loop (positive total workload, and a
  non-zero battery sum or all capacities supplied), a vehicle without a supplied
  \<open>capacity_workload\<close> ends with the capacity
  \<open>total_workload * battery / battery_sum\<close>, where \<open>battery\<close> is
  \<open>u.get('battery_pct', 1.0)\<close> and the sum runs over all vehicles, and a supplied capacity
  is left as it is. So two vehicles without a supplied capacity and with equal battery
  fraction get equal capacities. The returned statistics report these capacities.
\<close>

theorem assign_capacity_formula:
  assumes "assign_hexes_to_uavs kmeans_fit hex_cells uavs k_arg = (uavs', r)"
    and "0 < (\<Sum>h\<leftarrow>hex_cells. hex_workload h)"
    and "battery_sum uavs \<noteq> 0 \<or> (\<forall>u \<in> set uavs. capacity_workload u \<noteq> None)"
  shows "length uavs' = length uavs \<and>
    (\<forall>i<length uavs. capacity_workload (uavs' ! i) =
        Some (case capacity_workload (uavs ! i) of
                Some c \<Rightarrow> c
              | None \<Rightarrow> (\<Sum>h\<leftarrow>hex_cells. hex_workload h) * battery_of (uavs ! i) / battery_sum uavs)) \<and>
    (\<forall>i<length uavs. \<forall>j<length uavs.
        capacity_workload (uavs ! i) = None \<and> capacity_workload (uavs ! j) = None \<and>
        battery_of (uavs ! i) = battery_of (uavs ! j)
        \<longrightarrow> capacity_workload (uavs' ! i) = capacity_workload (uavs' ! j)) \<and>
    (\<forall>assignments stats. r = Inr (assignments, stats) \<and> distinct (map uav_id uavs)
        \<longrightarrow> map (\<lambda>s. capacity (snd s)) stats = map (\<lambda>u. the (capacity_workload u)) uavs')"
proof -
  let ?tw = "\<Sum>h\<leftarrow>hex_cells. hex_workload h"
  from fill_capacities_ok [OF assms(3)] obtain us where
    fill: "fill_capacities ?tw (battery_sum uavs) uavs = (us, None)" by blast
  from assms(1) have "fst (assign_hexes_to_uavs kmeans_fit hex_cells uavs k_arg) = uavs'" by simp
  with assms(2) fill have us: "us = uavs'" by (simp add: assign_fst)
  note fill' = fill [unfolded us]
  from fill_capacities_frame [OF fill'] have len: "length uavs' = length uavs" by simp
  have cap: "capacity_workload (uavs' ! i) =
        Some (case capacity_workload (uavs ! i) of
                Some c \<Rightarrow> c
              | None \<Rightarrow> ?tw * battery_of (uavs ! i) / battery_sum uavs)" if "i < length uavs" for i
    using fill_capacities_nth [OF fill' that] by (simp split: option.splits)
  have eq: "capacity_workload (uavs' ! i) = capacity_workload (uavs' ! j)"
    if "i < length uavs" "j < length uavs" "capacity_workload (uavs ! i) = None"
      "capacity_workload (uavs ! j) = None" "battery_of (uavs ! i) = battery_of (uavs ! j)" for i j
    using cap [OF that(1)] cap [OF that(2)] that(3-5) by simp
  have st: "map (\<lambda>s. capacity (snd s)) stats = map (\<lambda>u. the (capacity_workload u)) uavs'"
    if "r = Inr (assignments, stats)" "distinct (map uav_id uavs)" for assignments stats
    using assign_stats_report [OF assms(1) [unfolded that(1)] that(2)] by simp
  from len cap eq st show ?thesis by blast
qed

text \<open>
  In the concrete run the capacities 1 and 2 are computed from the battery fractions 1/4 and
  1/2; the supplied capacities 0 and 0 stay.
\<close>

theorem assign_capacity_formula_witness:
  "0 < (\<Sum>h\<leftarrow>ex_cells. hex_workload h) \<and> battery_sum ex_uavs \<noteq> 0 \<and>
   map capacity_workload ex_uavs = [None, None] \<and>
   map capacity_workload (fst (assign_hexes_to_uavs ex_kmeans ex_cells ex_uavs None))
     = [Some (3 * (1/4) / (3/4)), Some (3 * (1/2) / (3/4))] \<and>
   map capacity_workload (fst (assign_hexes_to_uavs ex_kmeans ex_cells ex_uavs_tight None))
     = [Some 0, Some 0]"
proof -
  have 1: "0 < (\<Sum>h\<leftarrow>ex_cells. hex_workload h)" by (simp add: ex_total)
  have 2: "battery_sum ex_uavs \<noteq> 0" by (simp add: battery_sum_def battery_of_def ex_uavs_def)
  have 3: "\<forall>u \<in> set ex_uavs_tight. capacity_workload u \<noteq> None" by (simp add: ex_uavs_tight_def)
  from assign_capacity_formula [OF ex_assign 1 disjI1 [OF 2]]
  have "capacity_workload (fst (assign_hexes_to_uavs ex_kmeans ex_cells ex_uavs None) ! 0) =
          Some (3 * (1/4) / (3/4)) \<and>
        capacity_workload (fst (assign_hexes_to_uavs ex_kmeans ex_cells ex_uavs None) ! 1) =
          Some (3 * (1/2) / (3/4))"
    unfolding ex_assign by (simp add: ex_uavs_def)
  moreover from assign_capacity_formula [OF ex_assign_tight 1 disjI2 [OF 3]]
  have "map capacity_workload (fst (assign_hexes_to_uavs ex_kmeans ex_cells ex_uavs_tight None))
     = [Some 0, Some 0]"
    unfolding ex_assign_tight by (simp add: ex_uavs_tight_def)
  ultimately show ?thesis using 1 2 unfolding ex_assign by (simp add: ex_uavs_def)
qed

text \<open>
  C4, as stated, fails on the code: the side-for-area function takes its area in acres, and
  \<open>hex_area\<close> returns square meters, so applied to \<open>hex_area(1)\<close> it returns the square
  root of 4046.8564224, not 1.
\<close>

theorem side_for_area_not_inverse_counterexample:
  "compute_hex_side_for_acres (hex_area 1) = Inr (sqrt ACRE_M2) \<and> sqrt ACRE_M2 \<noteq> 1"
  using HEX_CONST_pos ACRE_M2_pos
  by (simp add: compute_hex_side_for_acres_def hex_area_def Let_def) (simp add: ACRE_M2_def)

text \<open>
  C4, amended. For every positive side length \<open>s\<close>,
  \<open>compute_hex_side_for_acres(hex_area(s) / ACRE_M2) = s\<close>: the function inverts
  \<open>hex_area\<close> once the area is converted from square meters to acres. Applied to
  \<open>hex_area(s)\<close> itself it returns \<open>s\<close> times the square root of \<open>ACRE_M2\<close>.
\<close>

theorem side_for_area_inverse_in_acres:
  "0 < s \<longrightarrow> compute_hex_side_for_acres (hex_area s / ACRE_M2) = Inr s \<and>
             compute_hex_side_for_acres (hex_area s) = Inr (s * sqrt ACRE_M2)"
proof
  assume s: "0 < s"
  from HEX_CONST_pos ACRE_M2_pos have ne: "HEX_CONST \<noteq> 0" "ACRE_M2 \<noteq> 0" by simp_all
  have 1: "hex_area s / ACRE_M2 * ACRE_M2 / HEX_CONST = s\<^sup>2"
    using ne by (simp add: hex_area_def)
  have 2: "hex_area s * ACRE_M2 / HEX_CONST = s\<^sup>2 * ACRE_M2"
    using ne by (simp add: hex_area_def)
  have 3: "sqrt (s\<^sup>2 * ACRE_M2) = s * sqrt ACRE_M2"
    using s by (simp add: real_sqrt_mult)
  from s ACRE_M2_pos have 4: "\<not> s\<^sup>2 * ACRE_M2 < 0" by (simp add: not_less)
  have a: "compute_hex_side_for_acres (hex_area s / ACRE_M2) = Inr s"
    unfolding compute_hex_side_for_acres_def Let_def 1 using s by simp
  have b: "compute_hex_side_for_acres (hex_area s) = Inr (s * sqrt ACRE_M2)"
    unfolding compute_hex_side_for_acres_def Let_def 2 using 3 4 by simp
  from a b show "compute_hex_side_for_acres (hex_area s / ACRE_M2) = Inr s \<and>
        compute_hex_side_for_acres (hex_area s) = Inr (s * sqrt ACRE_M2)" ..
qed

text \<open>At side length 2.\<close>

theorem side_for_area_inverse_in_acres_witness:
  "(0::real) < 2 \<and> compute_hex_side_for_acres (hex_area 2 / ACRE_M2) = Inr 2 \<and>
   compute_hex_side_for_acres (hex_area 2) = Inr (2 * sqrt ACRE_M2)"
  using side_for_area_inverse_in_acres [of 2] by simp



text \<open>
  C6. The rebalancing loop is a total function: its recursion is well-founded on
  \<open>max_iters - iter_count\<close>. With a capacity and a centroid for each of the \<open>k\<close> buckets it
  returns. When it returns, it has executed at least one and at most
  \<open>max(200, 10k)\<close> passes, and if it stopped before the budget then the last pass made no
  move: the returned buckets are a fixed point of a pass. A pass that makes no move ends the
  loop at once. A pass over buckets none of which strictly exceeds its capacity makes no move,
  so the loop then ends after that one pass. A feasible partition is not guaranteed: there is
  a run that uses the whole budget of 200 passes and still returns a bucket over capacity.
\<close>

theorem rebalance_terminates_within_budget:
  "(rebalance capacities cluster_centers k buckets = Inr (buckets', n) \<longrightarrow>
      1 \<le> n \<and> n \<le> max 200 (10 * k) \<and>
      (n < max 200 (10 * k) \<longrightarrow>
         rebalance_pass capacities cluster_centers k buckets' = Inr (buckets', False))) \<and>
   (k \<le> length capacities \<and> k \<le> length cluster_centers \<and> k \<le> length buckets \<longrightarrow>
      (\<exists>buckets2 n2. rebalance capacities cluster_centers k buckets = Inr (buckets2, n2))) \<and>
   (iter_count < max_iters \<and>
    rebalance_pass capacities cluster_centers k buckets = Inr (buckets1, False) \<longrightarrow>
      rebalance_loop capacities cluster_centers k max_iters True iter_count buckets
        = Inr (buckets, iter_count + 1)) \<and>
   (length buckets = k \<and> k \<le> length capacities \<and>
    (\<forall>b<k. bucket_workload (buckets ! b) \<le> capacities ! b) \<longrightarrow>
      rebalance_pass capacities cluster_centers k buckets = Inr (buckets, False) \<and>
      rebalance capacities cluster_centers k buckets = Inr (buckets, 1)) \<and>
   (\<exists>caps0 cc0 k0 (bs0 :: unit hex_cell list list) bs1 n0.
      rebalance caps0 cc0 k0 bs0 = Inr (bs1, n0) \<and> n0 = max 200 (10 * k0) \<and>
      (\<exists>b<k0. caps0 ! b < bucket_workload (bs1 ! b)))"
proof (intro conjI impI)
  assume r: "rebalance capacities cluster_centers k buckets = Inr (buckets', n)"
  have "0 < max_iters_of k" by (simp add: max_iters_of_def)
  with rebalance_loop_count [OF r [unfolded rebalance_def]]
  show "1 \<le> n" "n \<le> max 200 (10 * k)" by (simp_all add: max_iters_of_def)
  assume "n < max 200 (10 * k)"
  then have "n < max_iters_of k" by (simp add: max_iters_of_def)
  from rebalance_loop_fixpoint [OF r [unfolded rebalance_def] TrueI this]
  show "rebalance_pass capacities cluster_centers k buckets' = Inr (buckets', False)" .
next
  assume "k \<le> length capacities \<and> k \<le> length cluster_centers \<and> k \<le> length buckets"
  then have "\<exists>r. rebalance_loop capacities cluster_centers k (max_iters_of k) True 0 buckets = Inr r"
    by (intro rebalance_loop_ok) simp_all
  then show "\<exists>buckets2 n2. rebalance capacities cluster_centers k buckets = Inr (buckets2, n2)"
    unfolding rebalance_def by auto
next
  assume "iter_count < max_iters \<and>
    rebalance_pass capacities cluster_centers k buckets = Inr (buckets1, False)"
  then show "rebalance_loop capacities cluster_centers k max_iters True iter_count buckets
        = Inr (buckets, iter_count + 1)"
    using rebalance_loop_no_move by blast
next
  assume h: "length buckets = k \<and> k \<le> length capacities \<and>
    (\<forall>b<k. bucket_workload (buckets ! b) \<le> capacities ! b)"
  then have "\<forall>b \<in> set [0..<k]. b < length buckets \<and> b < length capacities \<and>
     bucket_workload (buckets ! b) \<le> capacities ! b" by auto
  from pass_loop_feasible [OF this]
  show p: "rebalance_pass capacities cluster_centers k buckets = Inr (buckets, False)"
    unfolding rebalance_pass_def .
  have "0 < max_iters_of k" by (simp add: max_iters_of_def)
  from rebalance_loop_no_move [OF this p]
  show "rebalance capacities cluster_centers k buckets = Inr (buckets, 1)"
    unfolding rebalance_def by simp
next
  have "\<exists>b<2. [3, 3 :: real] ! b < bucket_workload (ex_osc ! b)"
    by (rule exI [of _ 0]) (simp add: ex_osc_def bucket_workload_def)
  with ex_osc_rebalance
  show "\<exists>caps0 cc0 k0 (bs0 :: unit hex_cell list list) bs1 n0.
      rebalance caps0 cc0 k0 bs0 = Inr (bs1, n0) \<and> n0 = max 200 (10 * k0) \<and>
      (\<exists>b<k0. caps0 ! b < bucket_workload (bs1 ! b))"
    by (intro exI [of _ "[3, 3]"] exI [of _ "[(1/4, 0), (10, 0)]"] exI [of _ 2] exI [of _ ex_osc]
        exI [of _ 200]) simp
qed

text \<open>
  The concrete run takes two passes, the second of which makes no move; started from its
  result the loop takes one pass; the oscillating state uses all 200 passes.
\<close>

theorem rebalance_terminates_within_budget_witness:
  "rebalance [1, 2] [(1/2, 0), (10, 0)] 2 [[ex_cell 0 0 1, ex_cell 1 1 1], [ex_cell 2 10 1]]
     = Inr ([[ex_cell 1 1 1], [ex_cell 2 10 1, ex_cell 0 0 1]], 2) \<and>
   (1::nat) \<le> 2 \<and> (2::nat) \<le> max 200 (10 * 2) \<and>
   rebalance_pass [1, 2] [(1/2, 0), (10, 0)] 2 [[ex_cell 1 1 1], [ex_cell 2 10 1, ex_cell 0 0 1]]
     = Inr ([[ex_cell 1 1 1], [ex_cell 2 10 1, ex_cell 0 0 1]], False) \<and>
   rebalance [1, 2] [(1/2, 0), (10, 0)] 2 [[ex_cell 1 1 1], [ex_cell 2 10 1, ex_cell 0 0 1]]
     = Inr ([[ex_cell 1 1 1], [ex_cell 2 10 1, ex_cell 0 0 1]], 1) \<and>
   rebalance [3, 3] [(1/4, 0), (10, 0)] 2 ex_osc = Inr (ex_osc, 200)"
proof -
  let ?b0 = "[[ex_cell 0 0 1, ex_cell 1 1 1], [ex_cell 2 10 1 :: unit hex_cell]]"
  let ?b1 = "[[ex_cell 1 1 1], [ex_cell 2 10 1, ex_cell 0 0 1 :: unit hex_cell]]"
  note t = rebalance_terminates_within_budget [of "[1, 2]" "[(1/2, 0), (10, 0)]" 2]
  from t [of ?b0 ?b1 2] ex_rebalance
  have a: "rebalance_pass [1, 2] [(1/2, 0), (10, 0)] 2 ?b1 = Inr (?b1, False)" by simp
  have "length ?b1 = 2 \<and> 2 \<le> length [1, 2 :: real] \<and>
    (\<forall>b<2. bucket_workload (?b1 ! b) \<le> [1, 2] ! b)"
    by (simp add: bucket_workload_def less_Suc_eq numeral_2_eq_2)
  with t [of ?b1] have b: "rebalance [1, 2] [(1/2, 0), (10, 0)] 2 ?b1 = Inr (?b1, 1)" by blast
  from a b ex_rebalance ex_osc_rebalance show ?thesis by simp
qed

text \<open>
  C7. With sliver rejection enabled, every cell returned by \<open>generate_hex_grid\<close> records
  as \<open>area_m2\<close> the area of its clipped polygon, this area is strictly greater than 1, and
  it is at most \<open>hex_area(s)\<close>, the area of the unclipped hexagon of the grid's side length
  \<open>s\<close>. The lower bound is the guard of the loop. The upper bound rests on two properties of
  the geometry library, taken as hypotheses: an intersection has at most the area of its
  first operand, and the area of a polygon built from a vertex list is given by the
  surveyor's formula; for the six vertices that \<open>hex_center_to_polygon\<close> computes, that
  formula gives \<open>hex_area(s)\<close> wherever the centre is.
\<close>

theorem generate_hex_grid_cell_area:
  assumes "generate_hex_grid G farm_polygon cell_acres True = Inr cells"
    and "\<forall>p q. geo_area G (geo_intersection G p q) \<le> geo_area G p"
    and "\<forall>vs. geo_area G (geo_polygon G vs) = shoelace_area vs"
  shows "\<exists>s. compute_hex_side_for_acres cell_acres = Inr s \<and>
           (\<forall>c \<in> set cells. area_m2 c = geo_area G (poly c) \<and> 1 < area_m2 c \<and>
                              area_m2 c \<le> hex_area s)"
proof -
  from generate_hex_grid_shape [OF assms(1)] obtain s hs where
    s: "compute_hex_side_for_acres cell_acres = Inr s"
    and cells: "cells = clip_loop G farm_polygon True hs [] 0"
    and hs: "\<forall>h \<in> set hs. snd h = hex_center_to_polygon G (fst (fst h)) (snd (fst h)) s"
    by blast
  have "area_m2 c = geo_area G (poly c) \<and> 1 < area_m2 c \<and> area_m2 c \<le> hex_area s"
    if "c \<in> set cells" for c
  proof -
    from clip_loop_cells [OF that [unfolded cells]] obtain h where
      h: "h \<in> set hs" "poly c = geo_intersection G (snd h) farm_polygon"
        "area_m2 c = geo_area G (poly c)" "1 < area_m2 c" by auto
    from hs h(1) have "geo_area G (snd h) = hex_area s"
      by (simp add: hex_center_to_polygon_def assms(3) hexagon_shoelace)
    with assms(2) h(2,3) have "area_m2 c \<le> hex_area s" by metis
    with h show ?thesis by simp
  qed
  with s show ?thesis by blast
qed

text \<open>
  With the stand-in geometry and half-acre cells on the rectangle, the grid is not empty
  and every cell has the area of a whole hexagon.
\<close>

theorem generate_hex_grid_cell_area_witness:
  "(\<forall>p q. geo_area ex_geometry (geo_intersection ex_geometry p q) \<le> geo_area ex_geometry p) \<and>
   (\<forall>vs. geo_area ex_geometry (geo_polygon ex_geometry vs) = shoelace_area vs) \<and>
   (\<exists>cells s. generate_hex_grid ex_geometry ex_farm (1/2) True = Inr cells \<and> cells \<noteq> [] \<and>
      compute_hex_side_for_acres (1/2) = Inr s \<and>
      (\<forall>c \<in> set cells. area_m2 c = geo_area ex_geometry (poly c) \<and> 1 < area_m2 c \<and>
                         area_m2 c \<le> hex_area s))"
proof -
  have 1: "\<forall>p q. geo_area ex_geometry (geo_intersection ex_geometry p q) \<le> geo_area ex_geometry p"
    by (simp add: ex_geometry_simps)
  have 2: "\<forall>vs. geo_area ex_geometry (geo_polygon ex_geometry vs) = shoelace_area vs"
    by (simp add: ex_geometry_simps)
  from ex_grid_nonempty obtain cells where
    c: "generate_hex_grid ex_geometry ex_farm (1/2) True = Inr cells" "cells \<noteq> []" by blast
  from generate_hex_grid_cell_area [OF c(1) 1 2] c 1 2 show ?thesis by blast
qed

text \<open>
  C8. Whatever the boundary, the cell size and the sliver flag, the ids of the returned
  cells are \<open>0, 1, ..., N-1\<close> in list order, which is the order of generation, where \<open>N\<close> is
  the number of returned cells; so they are pairwise different. With sliver rejection
  enabled every cell that has an id has passed the sliver test. For a positive cell size
  the function returns.
\<close>

theorem generate_hex_grid_ids:
  "(generate_hex_grid G farm_polygon cell_acres ignore_slivers = Inr cells \<longrightarrow>
      map cell_id cells = map int [0..<length cells] \<and> distinct (map cell_id cells) \<and>
      (ignore_slivers \<longrightarrow> (\<forall>c \<in> set cells. 1 < area_m2 c))) \<and>
   (0 < cell_acres \<longrightarrow>
      (\<exists>cells. generate_hex_grid G farm_polygon cell_acres ignore_slivers = Inr cells))"
proof (intro conjI impI)
  assume g: "generate_hex_grid G farm_polygon cell_acres ignore_slivers = Inr cells"
  from generate_hex_grid_shape [OF g] obtain hs where
    cells: "cells = clip_loop G farm_polygon ignore_slivers hs [] 0" by blast
  have "map cell_id ([] :: 'a hex_cell list) = map int [0..<length ([] :: 'a hex_cell list)]"
    "(0::int) = int (length ([] :: 'a hex_cell list))" by simp_all
  from clip_loop_ids [OF this] show ids: "map cell_id cells = map int [0..<length cells]"
    unfolding cells .
  show "distinct (map cell_id cells)"
    unfolding ids by (simp add: distinct_map)
  show "\<forall>c \<in> set cells. 1 < area_m2 c" if "ignore_slivers"
    using clip_loop_cells [of _ G farm_polygon ignore_slivers hs "[]" 0] that
    unfolding cells by auto
next
  assume "0 < cell_acres"
  then show "\<exists>cells. generate_hex_grid G farm_polygon cell_acres ignore_slivers = Inr cells"
    by (rule generate_hex_grid_returns)
qed

text \<open>The stand-in geometry again: a non-empty grid with ids \<open>0..N-1\<close>.\<close>

theorem generate_hex_grid_ids_witness:
  "(0::real) < 1/2 \<and>
   (\<exists>cells. generate_hex_grid ex_geometry ex_farm (1/2) True = Inr cells \<and> cells \<noteq> [] \<and>
      map cell_id cells = map int [0..<length cells] \<and> distinct (map cell_id cells) \<and>
      (\<forall>c \<in> set cells. 1 < area_m2 c))"
proof -
  from ex_grid_nonempty obtain cells where
    c: "generate_hex_grid ex_geometry ex_farm (1/2) True = Inr cells" "cells \<noteq> []" by blast
  from generate_hex_grid_ids [of ex_geometry ex_farm "1/2" True cells] c
  have "map cell_id cells = map int [0..<length cells] \<and> distinct (map cell_id cells) \<and>
      (\<forall>c \<in> set cells. 1 < area_m2 c)" by blast
  with c show ?thesis by auto
qed

text \<open>
  C9. The call changes the caller's vehicle records in place and nothing else. After the
  call, whatever its outcome, the vehicle list has the same length, every vehicle keeps its
  \<open>id\<close> and \<open>battery_pct\<close>, and a vehicle with a supplied capacity is unchanged; when the
  total workload is positive and the battery sum is not zero, a vehicle without a capacity is
  the old record with the computed capacity written into \<open>capacity_workload\<close>. The code
  never assigns to a key of a cell, so the model has no cell store: every cell record in the
  returned assignment is one of the input records.
\<close>

theorem assign_frame:
  assumes "assign_hexes_to_uavs kmeans_fit hex_cells uavs k_arg = (uavs', r)"
  shows "length uavs' = length uavs \<and>
    (\<forall>i<length uavs.
        uav_id (uavs' ! i) = uav_id (uavs ! i) \<and> battery_pct (uavs' ! i) = battery_pct (uavs ! i) \<and>
        (capacity_workload (uavs ! i) \<noteq> None \<longrightarrow> uavs' ! i = uavs ! i)) \<and>
    (0 < (\<Sum>h\<leftarrow>hex_cells. hex_workload h) \<and> battery_sum uavs \<noteq> 0 \<longrightarrow>
       (\<forall>i<length uavs. capacity_workload (uavs ! i) = None \<longrightarrow>
          uavs' ! i = (uavs ! i)\<lparr>capacity_workload :=
            Some ((\<Sum>h\<leftarrow>hex_cells. hex_workload h) * (battery_of (uavs ! i) / battery_sum uavs))\<rparr>)) \<and>
    (\<forall>assignments stats. r = Inr (assignments, stats) \<longrightarrow>
       set (concat (map snd assignments)) \<subseteq> set hex_cells)"
proof -
  let ?tw = "\<Sum>h\<leftarrow>hex_cells. hex_workload h"
  let ?f = "fill_capacities ?tw (battery_sum uavs) uavs"
  from assms have fst: "fst (assign_hexes_to_uavs kmeans_fit hex_cells uavs k_arg) = uavs'" by simp
  have cells: "set (concat (map snd assignments)) \<subseteq> set hex_cells"
    if "r = Inr (assignments, stats)" for assignments stats
    using assign_cells_subset [OF assms [unfolded that]] .
  show ?thesis
  proof (cases "?tw \<le> 0")
    case True
    with fst have "uavs' = uavs" by (simp add: assign_fst)
    with True cells show ?thesis by auto
  next
    case False
    with fst have u: "uavs' = fst ?f" by (simp add: assign_fst)
    have "?f = (uavs', snd ?f)" unfolding u by simp
    from fill_capacities_frame [OF this]
    have len: "length uavs' = length uavs" and ids: "map uav_id uavs' = map uav_id uavs"
      and bat: "map battery_pct uavs' = map battery_pct uavs" by simp_all
    have a: "uav_id (uavs' ! i) = uav_id (uavs ! i) \<and> battery_pct (uavs' ! i) = battery_pct (uavs ! i) \<and>
        (capacity_workload (uavs ! i) \<noteq> None \<longrightarrow> uavs' ! i = uavs ! i)" if i: "i < length uavs" for i
    proof -
      from i len have "map uav_id uavs' ! i = uav_id (uavs' ! i)"
        "map battery_pct uavs' ! i = battery_pct (uavs' ! i)" by simp_all
      with ids bat i have "uav_id (uavs' ! i) = uav_id (uavs ! i)"
        "battery_pct (uavs' ! i) = battery_pct (uavs ! i)" by simp_all
      with fill_capacities_supplied [OF i, of ?tw "battery_sum uavs"] show ?thesis
        unfolding u by simp
    qed
    have b: "uavs' ! i = (uavs ! i)\<lparr>capacity_workload :=
            Some (?tw * (battery_of (uavs ! i) / battery_sum uavs))\<rparr>"
      if "battery_sum uavs \<noteq> 0" "i < length uavs" "capacity_workload (uavs ! i) = None" for i
      using fill_capacities_fst_nth [OF that(1,2), of ?tw] that(3) unfolding u by simp
    from len a b cells show ?thesis by blast
  qed
qed

text \<open>The concrete runs: capacities are written where they were missing, and only there.\<close>

theorem assign_frame_witness:
  "0 < (\<Sum>h\<leftarrow>ex_cells. hex_workload h) \<and> battery_sum ex_uavs \<noteq> 0 \<and>
   fst (assign_hexes_to_uavs ex_kmeans ex_cells ex_uavs None) =
     map (\<lambda>u. u\<lparr>capacity_workload := Some (3 * (battery_of u / (3/4)))\<rparr>) ex_uavs \<and>
   fst (assign_hexes_to_uavs ex_kmeans ex_cells ex_uavs_tight None) = ex_uavs_tight \<and>
   (\<exists>assignments stats.
      snd (assign_hexes_to_uavs ex_kmeans ex_cells ex_uavs None) = Inr (assignments, stats) \<and>
      set (concat (map snd assignments)) \<subseteq> set ex_cells)"
proof -
  have 1: "0 < (\<Sum>h\<leftarrow>ex_cells. hex_workload h)" by (simp add: ex_total)
  have 2: "battery_sum ex_uavs \<noteq> 0" by (simp add: battery_sum_def battery_of_def ex_uavs_def)
  from assign_frame [OF ex_assign]
  have "set (concat (map snd [(0 :: int, [ex_cell 1 1 1]), (1, [ex_cell 2 10 1, ex_cell 0 0 1])]))
      \<subseteq> set ex_cells" by blast
  then show ?thesis using 1 2 unfolding ex_assign ex_assign_tight
    by (simp add: ex_uavs_def battery_of_def)
qed

text \<open>
  C10, as stated, fails: with \<open>k = 3\<close> and two vehicles the call does not return an
  assignment that lacks the cells of bucket 2; it raises \<open>IndexError\<close> when the first pass
  reads \<open>capacities[2]\<close>.
\<close>

theorem assign_k_above_vehicles_counterexample:
  "length ex_uavs < 3 \<and>
   snd (assign_hexes_to_uavs ex_kmeans3 ex_cells ex_uavs (Some 3)) = Inl IndexError"
  unfolding ex_assign_k3 by (simp add: ex_uavs_def)

text \<open>
  C10, amended. A call with \<open>k\<close> greater than the number of vehicles never returns: every
  returned assignment comes from a call with \<open>k\<close> at most the number of vehicles, and
  when the vehicle ids are pairwise different and the clustering returns one label per cell
  it is an exact partition of the input cells. With positive total workload, computable capacities and a clustering that returns
  one label below \<open>k\<close> per cell, the exception of a call with \<open>k\<close> above the number of
  vehicles is \<open>IndexError\<close>.
\<close>

theorem assign_returns_only_if_k_le_vehicles:
  fixes k :: nat
  assumes k: "k = (case k_arg of None \<Rightarrow> length uavs | Some k' \<Rightarrow> k')"
  shows "(\<forall>uavs' assignments stats.
           assign_hexes_to_uavs kmeans_fit hex_cells uavs k_arg = (uavs', Inr (assignments, stats)) \<longrightarrow>
           k \<le> length uavs \<and>
           (distinct (map uav_id uavs) \<and>
            (\<forall>labels cc. kmeans_fit k (map center hex_cells) = Some (labels, cc) \<longrightarrow>
               length labels = length hex_cells) \<longrightarrow>
            map fst assignments = map uav_id uavs \<and>
            mset (concat (map snd assignments)) = mset hex_cells)) \<and>
         (length uavs < k \<and> 0 < (\<Sum>h\<leftarrow>hex_cells. hex_workload h) \<and>
          (battery_sum uavs \<noteq> 0 \<or> (\<forall>u \<in> set uavs. capacity_workload u \<noteq> None)) \<and>
          kmeans_fit k (map center hex_cells) = Some (labels, cluster_centers) \<and>
          length labels = length hex_cells \<and> (\<forall>l \<in> set labels. l < k) \<longrightarrow>
          snd (assign_hexes_to_uavs kmeans_fit hex_cells uavs k_arg) = Inl IndexError)"
proof (intro conjI allI impI)
  fix uavs' assignments stats
  assume res: "assign_hexes_to_uavs kmeans_fit hex_cells uavs k_arg = (uavs', Inr (assignments, stats))"
  from assign_k_le [OF res] show kle: "k \<le> length uavs" unfolding k .
  assume "distinct (map uav_id uavs) \<and>
            (\<forall>labels cc. kmeans_fit k (map center hex_cells) = Some (labels, cc) \<longrightarrow>
               length labels = length hex_cells)"
  then have d: "distinct (map uav_id uavs)"
    and km: "\<forall>labels cc. kmeans_fit k (map center hex_cells) = Some (labels, cc) \<longrightarrow>
               length labels = length hex_cells" by blast+
  from assign_partition [OF res k kle d km]
  show "map fst assignments = map uav_id uavs" "mset (concat (map snd assignments)) = mset hex_cells"
    by simp_all
next
  let ?tw = "\<Sum>h\<leftarrow>hex_cells. hex_workload h"
  assume h: "length uavs < k \<and> 0 < ?tw \<and>
          (battery_sum uavs \<noteq> 0 \<or> (\<forall>u \<in> set uavs. capacity_workload u \<noteq> None)) \<and>
          kmeans_fit k (map center hex_cells) = Some (labels, cluster_centers) \<and>
          length labels = length hex_cells \<and> (\<forall>l \<in> set labels. l < k)"
  then have gt: "length uavs < k" and tw: "0 < ?tw"
    and bat: "battery_sum uavs \<noteq> 0 \<or> (\<forall>u \<in> set uavs. capacity_workload u \<noteq> None)"
    and km: "kmeans_fit k (map center hex_cells) = Some (labels, cluster_centers)"
    and ll: "length labels = length hex_cells" and lab: "\<forall>l \<in> set labels. l < k"
    by blast+
  from fill_capacities_ok [OF bat] obtain uavs' where
    fill: "fill_capacities ?tw (battery_sum uavs) uavs = (uavs', None)" by blast
  from fill_capacities_some [OF fill] have some: "\<forall>u \<in> set uavs'. capacity_workload u \<noteq> None" .
  from fill_capacities_frame [OF fill] have len: "length uavs' = length uavs" by simp
  let ?caps = "map (\<lambda>u. the (capacity_workload u)) uavs'"
  from read_capacities_ok [OF some] have rc: "read_capacities uavs' = Inr ?caps" .
  from lab have "\<forall>l \<in> set labels. l < length (replicate k ([] :: 'a hex_cell list))" by simp
  from build_buckets_ok [where idx = 0 and hex_cells = hex_cells, OF this] ll obtain buckets where
    bb: "build_buckets hex_cells 0 labels (replicate k []) = Inr buckets" by auto
  from build_buckets_inv [OF bb] have lb: "length buckets = k" by simp
  have rb: "rebalance ?caps cluster_centers k buckets = Inl IndexError"
  proof (cases "rebalance ?caps cluster_centers k buckets")
    case (Inr r)
    from rebalance_index [OF Inr] len gt show ?thesis by simp
  next
    case (Inl e)
    then have "e = IndexError \<or> (e = KeyError \<and> length buckets < k)"
      unfolding rebalance_def by (rule rebalance_loop_error)
    with lb Inl show ?thesis by simp
  qed
  from tw fill rc km bb rb
  show "snd (assign_hexes_to_uavs kmeans_fit hex_cells uavs k_arg) = Inl IndexError"
    unfolding assign_hexes_to_uavs_def k [symmetric] by (simp add: Let_def)
qed

text \<open>Both halves at concrete inputs: \<open>k = 3\<close> raises, \<open>k = 2\<close> returns a partition.\<close>

theorem assign_returns_only_if_k_le_vehicles_witness:
  "length ex_uavs < 3 \<and> 0 < (\<Sum>h\<leftarrow>ex_cells. hex_workload h) \<and> battery_sum ex_uavs \<noteq> 0 \<and>
   ex_kmeans3 3 (map center ex_cells) = Some ([0, 1, 2], [(0, 0), (1, 0), (10, 0)]) \<and>
   snd (assign_hexes_to_uavs ex_kmeans3 ex_cells ex_uavs (Some 3)) = Inl IndexError \<and>
   (\<exists>uavs' assignments stats.
      assign_hexes_to_uavs ex_kmeans ex_cells ex_uavs (Some 2) = (uavs', Inr (assignments, stats)) \<and>
      2 \<le> length ex_uavs \<and> distinct (map uav_id ex_uavs) \<and>
      mset (concat (map snd assignments)) = mset ex_cells)"
proof -
  have 1: "0 < (\<Sum>h\<leftarrow>ex_cells. hex_workload h)" by (simp add: ex_total)
  have 2: "battery_sum ex_uavs \<noteq> 0" by (simp add: battery_sum_def battery_of_def ex_uavs_def)
  have 3: "ex_kmeans3 3 (map center ex_cells) = Some ([0, 1, 2], [(0, 0), (1, 0), (10, 0)])"
    by (simp add: ex_kmeans3_def)
  have 4: "length ex_uavs < 3" "length [0, 1, 2 :: nat] = length ex_cells"
    "\<forall>l \<in> set [0, 1, 2 :: nat]. l < 3" "distinct (map uav_id ex_uavs)" "2 \<le> length ex_uavs"
    by (simp_all add: ex_uavs_def ex_cells_def)
  have k3: "(3::nat) = (case Some 3 of None \<Rightarrow> length ex_uavs | Some k' \<Rightarrow> k')" by simp
  have k2: "(2::nat) = (case Some 2 of None \<Rightarrow> length ex_uavs | Some k' \<Rightarrow> k')" by simp
  have e2: "assign_hexes_to_uavs ex_kmeans ex_cells ex_uavs (Some 2) =
      assign_hexes_to_uavs ex_kmeans ex_cells ex_uavs None"
    by (simp add: assign_hexes_to_uavs_def ex_uavs_def numeral_2_eq_2)
  have km: "\<forall>labels cc. ex_kmeans 2 (map center ex_cells) = Some (labels, cc) \<longrightarrow>
      length labels = length ex_cells"
    by (simp add: ex_kmeans_def ex_cells_def)
  from assign_returns_only_if_k_le_vehicles [where kmeans_fit = ex_kmeans3 and hex_cells = ex_cells
      and uavs = ex_uavs and labels = "[0, 1, 2]" and cluster_centers = "[(0, 0), (1, 0), (10, 0)]", OF k3]
    1 2 3 4
  have a: "snd (assign_hexes_to_uavs ex_kmeans3 ex_cells ex_uavs (Some 3)) = Inl IndexError"
    by blast
  note r2 = ex_assign [folded e2]
  from assign_returns_only_if_k_le_vehicles [where kmeans_fit = ex_kmeans and hex_cells = ex_cells
      and uavs = ex_uavs and labels = "[]" and cluster_centers = "[]", OF k2] r2 4(4) km
  have b: "mset (concat (map snd [(0 :: int, [ex_cell 1 1 1]), (1, [ex_cell 2 10 1, ex_cell 0 0 1])]))
      = mset ex_cells"
    by blast
  from a b 1 2 3 4 show ?thesis unfolding e2 ex_assign by simp
qed

end
